theory Spec2Isabelle
  imports Main
begin

section \<open>Errors\<close>

text \<open>
  The exceptions the lexer can raise.  \<open>LexerError\<close> is \<open>Lexer.Error\<close>; it
  carries the text handed to \<open>Exception.__init__\<close>.  The other three are the
  Python built-ins raised by list indexing, \<open>Source.next\<close>, the
  \<open>CursorRange\<close> constructor, \<open>max\<close> of an empty sequence and \<open>list.index\<close>.
\<close>

datatype error = IndexError | StopIteration | ValueError | LexerError string

section \<open>Cursor and CursorRange\<close>

text \<open>Rows and columns only ever count upwards from \<open>Cursor(0, 0)\<close>, so they are naturals.\<close>

record cursor =
  row :: nat
  col :: nat

definition Cursor :: "nat \<Rightarrow> nat \<Rightarrow> cursor" where
  "Cursor r c = \<lparr>row = r, col = c\<rparr>"

text \<open>\<open>Cursor.__lt__\<close>, and the comparisons \<open>total_ordering\<close> derives from it.\<close>

definition cursor_lt :: "cursor \<Rightarrow> cursor \<Rightarrow> bool" where
  "cursor_lt a b = (row a < row b \<or> (row a = row b \<and> col a < col b))"

definition cursor_le :: "cursor \<Rightarrow> cursor \<Rightarrow> bool" where
  "cursor_le a b = (cursor_lt a b \<or> a = b)"

definition cursor_gt :: "cursor \<Rightarrow> cursor \<Rightarrow> bool" where
  "cursor_gt a b = (\<not> cursor_lt a b \<and> a \<noteq> b)"

record cursor_range =
  start :: cursor
  stop :: cursor

text \<open>\<open>CursorRange.__post_init__\<close>: construction fails when start is after end.\<close>

definition CursorRange :: "cursor \<Rightarrow> cursor \<Rightarrow> error + cursor_range" where
  "CursorRange s e = (if cursor_gt s e then Inl ValueError else Inr \<lparr>start = s, stop = e\<rparr>)"

section \<open>Source\<close>

record source =
  lines :: "string list"

text \<open>\<open>str.split("\n")\<close>: one more line than there are newline characters.\<close>

fun split_nl :: "string \<Rightarrow> string list" where
  "split_nl [] = [[]]"
| "split_nl (c # cs) =
     (if c = CHR 0x0A then [] # split_nl cs
      else (case split_nl cs of [] \<Rightarrow> [[c]] | l # ls \<Rightarrow> (c # l) # ls))"

definition Source :: "string \<Rightarrow> source" where
  "Source src = \<lparr>lines = split_nl src\<rparr>"

definition rows :: "source \<Rightarrow> nat" where
  "rows src = length (lines src)"

definition cols :: "source \<Rightarrow> nat \<Rightarrow> error + nat" where
  "cols src r = (if r < length (lines src) then Inr (length (lines src ! r)) else Inl IndexError)"

text \<open>\<open>Source.valid\<close>; \<open>and\<close> does not look at the line when the row is out of range.\<close>

definition valid :: "source \<Rightarrow> cursor \<Rightarrow> bool" where
  "valid src pos = (row pos < rows src \<and> col pos \<le> length (lines src ! row pos))"

text \<open>
  \<open>Source.char_at\<close> returns a Python string: one character of the line, the
  newline at the end of every line but the last, or the three letters
  \<open>eof\<close> at the end of the last line.
\<close>

definition char_at :: "source \<Rightarrow> cursor \<Rightarrow> error + string" where
  "char_at src pos =
     (case cols src (row pos) of
        Inl e \<Rightarrow> Inl e
      | Inr n \<Rightarrow>
          if col pos = n then Inr (if row pos = rows src - 1 then ''eof'' else [CHR 0x0A])
          else if col pos < n then Inr [lines src ! row pos ! col pos]
          else Inl IndexError)"

text \<open>\<open>Source.next\<close> with \<open>n = 1\<close>.\<close>

definition next1 :: "source \<Rightarrow> cursor \<Rightarrow> error + cursor" where
  "next1 src pos =
     (case char_at src pos of
        Inl e \<Rightarrow> Inl e
      | Inr c \<Rightarrow>
          if c = ''eof'' then Inl StopIteration
          else (case cols src (row pos) of
                  Inl e \<Rightarrow> Inl e
                | Inr n \<Rightarrow> if col pos = n then Inr (Cursor (row pos + 1) 0)
                           else Inr (Cursor (row pos) (col pos + 1))))"

text \<open>The \<open>for _ in range(n)\<close> loop of the other case.\<close>

fun next_loop :: "source \<Rightarrow> cursor \<Rightarrow> nat \<Rightarrow> error + cursor" where
  "next_loop src pos 0 = Inr pos"
| "next_loop src pos (Suc k) =
     (case next1 src pos of Inl e \<Rightarrow> Inl e | Inr p \<Rightarrow> next_loop src p k)"

definition next_pos :: "source \<Rightarrow> cursor \<Rightarrow> nat \<Rightarrow> error + cursor" where
  "next_pos src pos n = (if n = 1 then next1 src pos else next_loop src pos n)"

text \<open>
  The number of logical characters from a position to the end of the text,
  the end-of-input marker included; it bounds every walk over the source.
\<close>

definition remaining :: "source \<Rightarrow> cursor \<Rightarrow> nat" where
  "remaining src pos =
     sum_list (map (\<lambda>l. Suc (length l)) (drop (row pos) (lines src))) - col pos"

text \<open>
  \<open>Source.range\<close> is a generator; the model is the list of positions it
  yields.  The generator reads the character of a position only after it has
  yielded the position, but each of its consumers reads that same character
  as soon as it receives the position, so the \<open>IndexError\<close> of an invalid
  start is raised either way.
\<close>

function range_pos :: "source \<Rightarrow> cursor \<Rightarrow> cursor option \<Rightarrow> error + cursor list" where
  "range_pos src pos fin =
     (if Some pos = fin then Inr []
      else (case char_at src pos of
              Inl e \<Rightarrow> Inl e
            | Inr c \<Rightarrow>
                if c = ''eof'' then Inr [pos]
                else (case next1 src pos of
                        Inl e \<Rightarrow> Inl e
                      | Inr p \<Rightarrow>
                          (case range_pos src p fin of
                             Inl e \<Rightarrow> Inl e
                           | Inr ps \<Rightarrow> Inr (pos # ps)))))"
  by pat_completeness auto
termination
proof (relation "measure (\<lambda>(src, pos, fin). remaining src pos)", goal_cases)
  case 1
  show ?case by simp
next
  case (2 src pos fin c p)
  from \<open>char_at src pos = Inr c\<close>
  have r: "row pos < length (lines src)" and cl: "col pos \<le> length (lines src ! row pos)"
    by (auto simp: char_at_def cols_def split: if_splits)
  have d: "drop (row pos) (lines src) = lines src ! row pos # drop (Suc (row pos)) (lines src)"
    using r by (simp add: Cons_nth_drop_Suc)
  have "remaining src p < remaining src pos"
  proof (cases "col pos = length (lines src ! row pos)")
    case True
    with 2 r have "p = Cursor (row pos + 1) 0"
      by (auto simp: next1_def cols_def split: if_splits)
    then show ?thesis using True d by (simp add: remaining_def Cursor_def)
  next
    case False
    with 2 r have "p = Cursor (row pos) (col pos + 1)"
      by (auto simp: next1_def cols_def split: if_splits)
    then show ?thesis using False cl d by (simp add: remaining_def Cursor_def)
  qed
  then show ?case by simp
qed

declare range_pos.simps [simp del]

text \<open>\<open>"".join(self[pos] for pos in ...)\<close>.\<close>

fun join_chars :: "source \<Rightarrow> cursor list \<Rightarrow> error + string" where
  "join_chars src [] = Inr []"
| "join_chars src (p # ps) =
     (case char_at src p of
        Inl e \<Rightarrow> Inl e
      | Inr c \<Rightarrow> (case join_chars src ps of Inl e \<Rightarrow> Inl e | Inr s \<Rightarrow> Inr (c @ s)))"

definition str_at :: "source \<Rightarrow> cursor_range \<Rightarrow> error + string" where
  "str_at src rng =
     (case range_pos src (start rng) (Some (stop rng)) of
        Inl e \<Rightarrow> Inl e
      | Inr ps \<Rightarrow> join_chars src ps)"

text \<open>\<open>Source.len\<close>.\<close>

definition len_range :: "source \<Rightarrow> cursor_range \<Rightarrow> error + nat" where
  "len_range src rng =
     (case range_pos src (start rng) (Some (stop rng)) of
        Inl e \<Rightarrow> Inl e
      | Inr ps \<Rightarrow> Inr (length ps))"

section \<open>Token kinds and tokens\<close>

text \<open>
  \<open>Token.define(token_type, regex)\<close> makes a subclass of \<open>Token\<close> whose name is
  \<open>token_type\<close> and whose class attribute is the compiled \<open>regex\<close>.  A kind is
  that pair.  Python's \<open>re\<close> module is not part of the program: wherever a
  pattern is matched, the matcher is a parameter \<open>re\<close>, and \<open>re p s\<close> stands for
  \<open>re.compile(p).match(s)\<close>: \<open>None\<close>, or \<open>match.end()\<close>.
\<close>

record token_kind =
  token_type :: string
  pattern :: string

definition Token_define :: "string \<Rightarrow> string \<Rightarrow> token_kind" where
  "Token_define name regex = \<lparr>token_type = name, pattern = regex\<rparr>"

type_synonym matcher = "string \<Rightarrow> string \<Rightarrow> nat option"

text \<open>
  A token instance: its class, its range, the lexeme \<open>__post_init__\<close> reads
  from the source, and its alternative.  The field \<open>src\<close> is the one source of
  the run and is passed alongside.
\<close>

datatype token =
  Token (kind: token_kind) (rng: cursor_range) (lexeme: string) (alternative: "token option")

text \<open>The property \<open>Token.len\<close>.\<close>

definition token_len :: "token \<Rightarrow> nat" where
  "token_len t = length (lexeme t)"

text \<open>The assignment \<open>match.alternative = result\<close>.\<close>

definition set_alternative :: "token \<Rightarrow> token option \<Rightarrow> token" where
  "set_alternative t a = Token (kind t) (rng t) (lexeme t) a"

text \<open>The tokens met by following \<open>alternative\<close> until it is \<open>None\<close>.\<close>

fun alt_chain :: "token \<Rightarrow> token list" where
  "alt_chain (Token k r s None) = [Token k r s None]"
| "alt_chain (Token k r s (Some t)) = Token k r s (Some t) # alt_chain t"

section \<open>Lexer.Error\<close>

text \<open>\<open>str\<close> of a non-negative integer.\<close>

function str_nat :: "nat \<Rightarrow> string" where
  "str_nat n =
     (if n < 10 then [''0123456789'' ! n]
      else str_nat (n div 10) @ [''0123456789'' ! (n mod 10)])"
  by pat_completeness auto
termination
  by (relation "measure id") auto

declare str_nat.simps [simp del]

text \<open>\<open>Cursor.__str__\<close>.\<close>

definition cursor_str :: "cursor \<Rightarrow> string" where
  "cursor_str pos = ''row '' @ str_nat (row pos + 1) @ '' col '' @ str_nat (col pos + 1)"

text \<open>
  \<open>range(max(0, pos.row - 3), min(src.rows, pos.row + 3))\<close>; subtraction on
  naturals stops at 0, which is the \<open>max\<close> with 0.
\<close>

definition rows_to_show :: "source \<Rightarrow> cursor \<Rightarrow> nat list" where
  "rows_to_show src pos = [max 0 (row pos - 3) ..< min (rows src) (row pos + 3)]"

text \<open>The format \<open>{...:>{width}}\<close>.\<close>

definition rjust :: "nat \<Rightarrow> string \<Rightarrow> string" where
  "rjust w s = replicate (w - length s) CHR '' '' @ s"

text \<open>\<open>list.index\<close>.\<close>

fun index_of :: "nat list \<Rightarrow> nat \<Rightarrow> error + nat" where
  "index_of [] x = Inl ValueError"
| "index_of (y # ys) x =
     (if y = x then Inr 0
      else (case index_of ys x of Inl e \<Rightarrow> Inl e | Inr i \<Rightarrow> Inr (Suc i)))"

text \<open>\<open>"\\n".join\<close>.\<close>

fun join_nl :: "string list \<Rightarrow> string" where
  "join_nl [] = []"
| "join_nl [s] = s"
| "join_nl (s # t # ss) = s @ [CHR 0x0A] @ join_nl (t # ss)"

text \<open>
  \<open>Lexer.Error.__init__\<close>: the exception that leaves the constructor call.
  \<open>max\<close> of no rows and \<open>index\<close> of a row that is not shown raise
  \<open>ValueError\<close> instead.
\<close>

definition Lexer_Error :: "source \<Rightarrow> cursor \<Rightarrow> string \<Rightarrow> error" where
  "Lexer_Error src pos msg =
     (let shown = rows_to_show src pos in
      if shown = [] then ValueError
      else
        let line_num_width = foldr max (map (\<lambda>r. length (str_nat (r + 1))) shown) 0;
            rws = map (\<lambda>r. ''  '' @ rjust line_num_width (str_nat (r + 1)) @ '' '' @ lines src ! r) shown
        in (case index_of shown (row pos) of
              Inl e \<Rightarrow> e
            | Inr i \<Rightarrow>
                LexerError (join_nl ([msg] @ take (i + 1) rws
                  @ [''  '' @ replicate line_num_width CHR '' '' @ '' '' @ replicate (col pos) CHR '' '' @ ''^'']
                  @ drop (i + 1) rws))))"

section \<open>Lexer.Instance\<close>

definition WHITESPACE :: "string set" where
  "WHITESPACE = {'' '', [CHR 0x09], [CHR 0x0A]}"

text \<open>
  The instance's state is its cursor \<open>self.pos\<close>; the source never changes.
  A method takes the cursor and returns the cursor it leaves behind, together
  with what it returned or raised.

  \<open>skip_whitespace\<close>: the body of the \<open>for\<close> loop, over the positions the
  generator yields.  The \<open>print\<close> reads the character at the old cursor.
\<close>

fun skip_loop :: "source \<Rightarrow> cursor \<Rightarrow> cursor list \<Rightarrow> error option \<times> cursor" where
  "skip_loop src cur [] = (None, cur)"
| "skip_loop src cur (p # ps) =
     (case char_at src cur of
        Inl e \<Rightarrow> (Some e, cur)
      | Inr _ \<Rightarrow>
          (case char_at src p of
             Inl e \<Rightarrow> (Some e, p)
           | Inr c \<Rightarrow> if c \<notin> WHITESPACE then (None, p) else skip_loop src p ps))"

definition skip_whitespace :: "source \<Rightarrow> cursor \<Rightarrow> error option \<times> cursor" where
  "skip_whitespace src cur =
     (case range_pos src cur None of
        Inl e \<Rightarrow> (Some e, cur)
      | Inr ps \<Rightarrow> skip_loop src cur ps)"

text \<open>The constructor call \<open>token_type(self.src, CursorRange(self.pos, self.src.next(...)))\<close>.\<close>

definition make_token :: "source \<Rightarrow> token_kind \<Rightarrow> cursor \<Rightarrow> nat \<Rightarrow> error + token" where
  "make_token src k pos n =
     (case next_pos src pos n of
        Inl e \<Rightarrow> Inl e
      | Inr e \<Rightarrow>
          (case CursorRange pos e of
             Inl er \<Rightarrow> Inl er
           | Inr r \<Rightarrow>
               (case str_at src r of
                  Inl er \<Rightarrow> Inl er
                | Inr s \<Rightarrow> Inr (Token k r s None))))"

text \<open>The first loop of \<open>parse_token\<close>: the list \<open>matches\<close>.\<close>

fun collect_matches :: "matcher \<Rightarrow> source \<Rightarrow> cursor \<Rightarrow> token_kind list \<Rightarrow> error + token list" where
  "collect_matches re src pos [] = Inr []"
| "collect_matches re src pos (k # ks) =
     (if rows src \<le> row pos then Inl IndexError
      else (case re (pattern k) (drop (col pos) (lines src ! row pos)) of
              None \<Rightarrow> collect_matches re src pos ks
            | Some n \<Rightarrow>
                (case make_token src k pos n of
                   Inl e \<Rightarrow> Inl e
                 | Inr t \<Rightarrow>
                     (case collect_matches re src pos ks of
                        Inl e \<Rightarrow> Inl e
                      | Inr ts \<Rightarrow> Inr (t # ts)))))"

text \<open>The second loop: chaining the alternatives.\<close>

fun chain :: "token \<Rightarrow> token list \<Rightarrow> token" where
  "chain result [] = result"
| "chain result (m # ms) = chain (set_alternative m (Some result)) ms"

definition parse_token ::
  "matcher \<Rightarrow> source \<Rightarrow> cursor \<Rightarrow> token_kind list \<Rightarrow> (error + token) \<times> cursor" where
  "parse_token re src pos token_types =
     (case collect_matches re src pos token_types of
        Inl e \<Rightarrow> (Inl e, pos)
      | Inr matches \<Rightarrow>
          if matches = [] then
            (Inl (Lexer_Error src pos (''could not parse token at '' @ cursor_str pos)), pos)
          else
            let sorted_matches = sort_key token_len matches;
                tied = filter (\<lambda>t. token_len t = token_len (last sorted_matches)) sorted_matches
            in (case tied of
                  [] \<Rightarrow> (Inl IndexError, pos)
                | m # ms \<Rightarrow>
                    let result = chain m ms
                    in (case skip_whitespace src (stop (rng result)) of
                          (Some e, p) \<Rightarrow> (Inl e, p)
                        | (None, p) \<Rightarrow> (Inr result, p))))"

section \<open>The lex loops\<close>

text \<open>
  \<open>GenericLexer.Instance.lex\<close> and \<open>Xml.Lexer.Instance.lex\<close> are the same
  \<open>while\<close> loop and differ in the candidate list they hand to
  \<open>parse_token\<close>; \<open>sel\<close> computes that list from the tokens emitted so far.
  The loop has no bound of its own, so not returning is the value \<open>None\<close>.
\<close>

partial_function (option) lex_loop ::
  "matcher \<Rightarrow> (token list \<Rightarrow> token_kind list) \<Rightarrow> source \<Rightarrow> cursor \<Rightarrow> token list
     \<Rightarrow> (error + token list) option" where
  "lex_loop re sel src pos result =
     (case char_at src pos of
        Inl e \<Rightarrow> Some (Inl e)
      | Inr c \<Rightarrow>
          if c = ''eof'' then Some (Inr result)
          else (case parse_token re src pos (sel result) of
                  (Inl e, p) \<Rightarrow> Some (Inl e)
                | (Inr t, p) \<Rightarrow> lex_loop re sel src p (result @ [t])))"

declare lex_loop.simps [code]

definition lex_with ::
  "matcher \<Rightarrow> (token list \<Rightarrow> token_kind list) \<Rightarrow> source \<Rightarrow> (error + token list) option" where
  "lex_with re sel src =
     (case skip_whitespace src (Cursor 0 0) of
        (Some e, p) \<Rightarrow> Some (Inl e)
      | (None, p) \<Rightarrow> lex_loop re sel src p [])"

definition GenericLexer_lex :: "matcher \<Rightarrow> token_kind list \<Rightarrow> source \<Rightarrow> (error + token list) option" where
  "GenericLexer_lex re token_types src = lex_with re (\<lambda>result. token_types) src"

section \<open>The Xml lexer\<close>

definition Identifier :: token_kind where
  "Identifier = Token_define ''Identifier'' ''[A-Za-z_][A-Za-z0-9_]*''"

definition Equals :: token_kind where
  "Equals = Token_define ''Equals'' ''=''"

text \<open>
  The patterns are kept as the source writes them.  Backslash, the two quotes
  and the backquote are given by their codes.
\<close>

definition bs :: char where "bs = CHR 0x5C"
definition dq :: char where "dq = CHR 0x22"
definition sq :: char where "sq = CHR 0x27"
definition bq :: char where "bq = CHR 0x60"

definition OpenXmlDeclaration :: token_kind where
  "OpenXmlDeclaration = Token_define ''Open Xml Declaration'' (''<'' @ [bs] @ ''?xml'')"

definition CloseXmlDeclaration :: token_kind where
  "CloseXmlDeclaration = Token_define ''Close Xml Declaration'' ([bs] @ ''?>'')"

definition String :: token_kind where
  "String = Token_define ''String''
     ([sq] @ ''[^'' @ [sq] @ '']*'' @ [sq] @ ''|'' @ [dq] @ ''[^'' @ [dq] @ '']*'' @ [dq])"

definition TagName :: token_kind where
  "TagName = Token_define ''Tag Name'' ''[A-Za-z0-9][A-Za-z0-9_.-]*''"

definition Comment :: token_kind where
  "Comment = Token_define ''Comment'' ''<!--.*-->''"

definition Cdata :: token_kind where
  "Cdata = Token_define ''CDATA''
     (''<!'' @ [bs] @ ''[CDATA'' @ [bs] @ ''[[^'' @ [bs] @ '']]*'' @ [bs] @ '']'' @ [bs] @ '']>'')"

definition OpenTag :: token_kind where
  "OpenTag = Token_define ''Open Tag'' ''<''"

definition OpenSelfClosingTag :: token_kind where
  "OpenSelfClosingTag = Token_define ''Open Self-closing Tag'' ''</''"

definition CloseOpeningTag :: token_kind where
  "CloseOpeningTag = Token_define ''Close Opening Tag'' ''>''"

definition CloseClosingTag :: token_kind where
  "CloseClosingTag = Token_define ''Close Closing Tag'' ''/>''"

definition text_chars :: string where
  "text_chars = ''!'' @ [bs, dq] @ ''#$%&'' @ [sq] @ ''()*+,'' @ [bs] @ ''-./0-9:;=>?@A-Z''
     @ [bs] @ ''['' @ [bs, bs, bs] @ '']^_'' @ [bq] @ ''a-z{|}~''"

definition Text :: token_kind where
  "Text = Token_define ''Text''
     (''['' @ text_chars @ '']'' @ ''[ '' @ text_chars @ '']*'' @ ''[^ '' @ [bs] @ ''t<]'')"

definition token_types_excluding_text :: "token_kind list" where
  "token_types_excluding_text =
     [OpenXmlDeclaration, CloseXmlDeclaration, TagName, Identifier, Equals, String,
      Comment, Cdata, OpenTag, OpenSelfClosingTag, CloseOpeningTag, CloseClosingTag]"

definition token_types :: "token_kind list" where
  "token_types = token_types_excluding_text @ [Text]"

text \<open>
  The branch in the loop of \<open>Xml.Lexer.Instance.lex\<close>: the candidate list for
  the next step, from the tokens emitted so far.
\<close>

definition xml_candidates :: "token list \<Rightarrow> token_kind list" where
  "xml_candidates result =
     (if result \<noteq> [] \<and> token_type (kind (last result)) = ''Close Opening Tag''
      then token_types else token_types_excluding_text)"

definition Xml_lex :: "matcher \<Rightarrow> source \<Rightarrow> (error + token list) option" where
  "Xml_lex re src = lex_with re xml_candidates src"

section \<open>A matcher for patterns without metacharacters\<close>

text \<open>
  For a pattern that is plain text, \<open>re.compile(p).match(s)\<close> succeeds exactly
  when \<open>s\<close> begins with \<open>p\<close>, and then ends at the length of \<open>p\<close>; the empty
  pattern matches the empty prefix of every string.
\<close>

definition literal_match :: matcher where
  "literal_match p s = (if take (length p) s = p then Some (length p) else None)"

text \<open>
  A small vocabulary of plain-text patterns: two kinds for the letter \<open>a\<close>, one
  for \<open>ab\<close>, and one whose pattern is empty.
\<close>

definition kind_a :: token_kind where
  "kind_a = Token_define ''A'' ''a''"

definition kind_a2 :: token_kind where
  "kind_a2 = Token_define ''A2'' ''a''"

definition kind_ab :: token_kind where
  "kind_ab = Token_define ''AB'' ''ab''"

definition kind_empty :: token_kind where
  "kind_empty = Token_define ''Empty'' []"

text \<open>What \<open>re\<close> guarantees of every match: it ends inside the string it was run on.\<close>

definition matcher_ok :: "matcher \<Rightarrow> bool" where
  "matcher_ok re = (\<forall>p s n. re p s = Some n \<longrightarrow> n \<le> length s)"

text \<open>The rest of the current line, which is what \<open>parse_token\<close> hands to each pattern.\<close>

definition line_rest :: "source \<Rightarrow> cursor \<Rightarrow> string" where
  "line_rest src pos = drop (col pos) (lines src ! row pos)"

definition match_len :: "matcher \<Rightarrow> source \<Rightarrow> cursor \<Rightarrow> token_kind \<Rightarrow> nat option" where
  "match_len re src pos k = re (pattern k) (line_rest src pos)"

text \<open>
  The token a kind gives for a match of length \<open>n\<close> inside the current line,
  and the list \<open>matches\<close> written out for such matches.
\<close>

definition match_token :: "source \<Rightarrow> cursor \<Rightarrow> token_kind \<Rightarrow> nat \<Rightarrow> token" where
  "match_token src pos k n =
     Token k \<lparr>start = pos, stop = Cursor (row pos) (col pos + n)\<rparr> (take n (line_rest src pos)) None"

definition matches_of :: "matcher \<Rightarrow> source \<Rightarrow> cursor \<Rightarrow> token_kind list \<Rightarrow> token list" where
  "matches_of re src pos ks =
     concat (map (\<lambda>k. case match_len re src pos k of None \<Rightarrow> [] | Some n \<Rightarrow> [match_token src pos k n]) ks)"

text \<open>The candidate kinds whose match has a given length, in candidate order.\<close>

definition tied_kinds :: "matcher \<Rightarrow> source \<Rightarrow> cursor \<Rightarrow> token_kind list \<Rightarrow> nat \<Rightarrow> token_kind list" where
  "tied_kinds re src pos ks n = filter (\<lambda>k. match_len re src pos k = Some n) ks"

text \<open>Only whitespace lies from one position up to another.\<close>

definition gap_ok :: "source \<Rightarrow> cursor \<Rightarrow> cursor \<Rightarrow> bool" where
  "gap_ok src a b =
     (cursor_le a b \<and>
      (\<forall>q. valid src q \<and> cursor_le a q \<and> cursor_lt q b \<longrightarrow> (\<exists>c\<in>WHITESPACE. char_at src q = Inr c)))"

text \<open>No kind of a candidate list has a match of length 0.\<close>

definition no_empty_match :: "matcher \<Rightarrow> token_kind list \<Rightarrow> bool" where
  "no_empty_match re ks = (\<forall>k\<in>set ks. \<forall>s. re (pattern k) s \<noteq> Some 0)"

text \<open>
  What is checked of an emitted token: the lexeme of the token, and of every
  token on its alternative chain, is the text of the source over its range;
  and its range does not end before it starts.
\<close>

definition token_ok :: "source \<Rightarrow> token \<Rightarrow> bool" where
  "token_ok src t =
     ((\<forall>a\<in>set (alt_chain t). str_at src (rng a) = Inr (lexeme a))
      \<and> cursor_le (start (rng t)) (stop (rng t)))"

definition token_gap :: "source \<Rightarrow> token \<Rightarrow> token \<Rightarrow> bool" where
  "token_gap src t u = gap_ok src (stop (rng t)) (start (rng u))"

text \<open>The characters \<open>Lexer.WHITESPACE\<close> is made of.\<close>

definition whitespace_chars :: "char set" where
  "whitespace_chars = {CHR '' '', CHR 0x09, CHR 0x0A}"

section \<open>Positions and whitespace\<close>

lemma cursor_le_iff: "cursor_le a b \<longleftrightarrow> row a < row b \<or> (row a = row b \<and> col a \<le> col b)"
  by (cases a, cases b) (auto simp: cursor_le_def cursor_lt_def)

lemma valid_iff_char_at: "valid src pos \<longleftrightarrow> (\<exists>c. char_at src pos = Inr c)"
  by (auto simp: valid_def char_at_def cols_def rows_def split: if_splits)

lemma char_at_cases:
  assumes "valid src pos"
  shows "char_at src pos =
     Inr (if col pos = length (lines src ! row pos)
          then (if row pos = rows src - 1 then ''eof'' else [CHR 0x0A])
          else [lines src ! row pos ! col pos])"
  using assms by (auto simp: valid_def char_at_def cols_def rows_def)

lemma next1_valid:
  assumes "valid src pos" and "char_at src pos = Inr c" and "c \<noteq> ''eof''"
  shows "\<exists>p. next1 src pos = Inr p \<and> valid src p \<and> cursor_lt pos p
            \<and> remaining src p < remaining src pos
            \<and> (\<forall>q. valid src q \<and> cursor_lt pos q \<longrightarrow> cursor_le p q)"
proof -
  from assms(1) have r: "row pos < length (lines src)" and cl: "col pos \<le> length (lines src ! row pos)"
    by (auto simp: valid_def rows_def)
  have d: "drop (row pos) (lines src) = lines src ! row pos # drop (Suc (row pos)) (lines src)"
    using r by (simp add: Cons_nth_drop_Suc)
  show ?thesis
  proof (cases "col pos = length (lines src ! row pos)")
    case True
    with assms r have nl: "row pos \<noteq> rows src - 1"
      by (auto simp: char_at_def cols_def split: if_splits)
    have n: "next1 src pos = Inr (Cursor (row pos + 1) 0)"
      using assms True r by (simp add: next1_def cols_def)
    have v: "valid src (Cursor (row pos + 1) 0)"
      using nl r by (auto simp: valid_def rows_def Cursor_def)
    have lt: "cursor_lt pos (Cursor (row pos + 1) 0)" by (simp add: cursor_lt_def Cursor_def)
    have rm: "remaining src (Cursor (row pos + 1) 0) < remaining src pos"
      using True d by (simp add: remaining_def Cursor_def)
    have nx: "\<forall>q. valid src q \<and> cursor_lt pos q \<longrightarrow> cursor_le (Cursor (row pos + 1) 0) q"
      using True by (auto simp: valid_def cursor_lt_def cursor_le_iff Cursor_def)
    show ?thesis using n v lt rm nx by blast
  next
    case False
    have n: "next1 src pos = Inr (Cursor (row pos) (col pos + 1))"
      using assms False r by (simp add: next1_def cols_def)
    have v: "valid src (Cursor (row pos) (col pos + 1))"
      using False r cl by (auto simp: valid_def rows_def Cursor_def)
    have lt: "cursor_lt pos (Cursor (row pos) (col pos + 1))" by (simp add: cursor_lt_def Cursor_def)
    have rm: "remaining src (Cursor (row pos) (col pos + 1)) < remaining src pos"
      using False cl d by (simp add: remaining_def Cursor_def)
    have nx: "\<forall>q. valid src q \<and> cursor_lt pos q \<longrightarrow> cursor_le (Cursor (row pos) (col pos + 1)) q"
      by (auto simp: valid_def cursor_lt_def cursor_le_iff Cursor_def)
    show ?thesis using n v lt rm nx by blast
  qed
qed

lemma skip_loop_cur:
  assumes "char_at src cur = Inr a" and "char_at src cur' = Inr b"
  shows "skip_loop src cur (p # ps) = skip_loop src cur' (p # ps)"
  using assms by simp

lemma range_pos_None_unfold:
  assumes "char_at src pos = Inr c"
  shows "range_pos src pos None =
     (if c = ''eof'' then Inr [pos]
      else (case next1 src pos of Inl e \<Rightarrow> Inl e
            | Inr p \<Rightarrow> (case range_pos src p None of Inl e \<Rightarrow> Inl e | Inr ps \<Rightarrow> Inr (pos # ps))))"
  using assms by (subst range_pos.simps) simp

lemma range_pos_None_valid:
  "valid src pos \<Longrightarrow> \<exists>ps. range_pos src pos None = Inr (pos # ps)"
proof (induction "remaining src pos" arbitrary: pos rule: less_induct)
  case less
  from less.prems obtain c where c: "char_at src pos = Inr c"
    by (auto simp: valid_iff_char_at)
  show ?case
  proof (cases "c = ''eof''")
    case True
    then show ?thesis using c by (simp add: range_pos_None_unfold)
  next
    case False
    from next1_valid [OF less.prems c False] obtain p
      where p: "next1 src pos = Inr p" "valid src p" "remaining src p < remaining src pos"
      by blast
    from less.hyps [OF p(3) p(2)] obtain ps where "range_pos src p None = Inr (p # ps)" by blast
    then show ?thesis using c False p(1) by (simp add: range_pos_None_unfold)
  qed
qed

lemma skip_whitespace_unfold:
  assumes "valid src pos" and "char_at src pos = Inr c"
  shows "skip_whitespace src pos =
     (if c \<notin> WHITESPACE then (None, pos)
      else (case next1 src pos of Inl e \<Rightarrow> (Some e, pos) | Inr p \<Rightarrow> skip_whitespace src p))"
proof (cases "c \<in> WHITESPACE")
  case False
  from range_pos_None_valid [OF assms(1)] obtain ps where "range_pos src pos None = Inr (pos # ps)"
    by blast
  then show ?thesis using False assms(2) by (simp add: skip_whitespace_def)
next
  case True
  then have ne: "c \<noteq> ''eof''" by (auto simp: WHITESPACE_def)
  from next1_valid [OF assms ne] obtain p where p: "next1 src pos = Inr p" "valid src p" by blast
  from range_pos_None_valid [OF p(2)] obtain ps where ps: "range_pos src p None = Inr (p # ps)"
    by blast
  from p(2) obtain d where d: "char_at src p = Inr d" by (auto simp: valid_iff_char_at)
  have "range_pos src pos None = Inr (pos # p # ps)"
    using assms(2) ne p(1) ps by (simp add: range_pos_None_unfold)
  then show ?thesis using True assms(2) p(1) ps d by (simp add: skip_whitespace_def)
qed

lemma skip_whitespace_invalid:
  assumes "\<not> valid src pos"
  shows "\<exists>e. skip_whitespace src pos = (Some e, pos)"
proof -
  from assms obtain e where "char_at src pos = Inl e"
    by (cases "char_at src pos") (auto simp: valid_iff_char_at)
  then have "range_pos src pos None = Inl e" by (subst range_pos.simps) simp
  then show ?thesis by (simp add: skip_whitespace_def)
qed

lemma gap_ok_refl: "gap_ok src a a"
  by (auto simp: gap_ok_def cursor_le_def cursor_lt_def)

lemma gap_ok_step:
  assumes "char_at src a = Inr c" and "c \<in> WHITESPACE"
    and "cursor_lt a b" and "\<forall>q. valid src q \<and> cursor_lt a q \<longrightarrow> cursor_le b q"
    and "gap_ok src b p"
  shows "gap_ok src a p"
proof -
  have le: "cursor_le a p"
    using assms(3,5) by (auto simp: gap_ok_def cursor_le_iff cursor_lt_def)
  have "\<exists>d\<in>WHITESPACE. char_at src q = Inr d"
    if q: "valid src q" "cursor_le a q" "cursor_lt q p" for q
  proof (cases "q = a")
    case True
    then show ?thesis using assms(1,2) by simp
  next
    case False
    with q(2) have "cursor_lt a q" by (simp add: cursor_le_def)
    with assms(4) q(1) have "cursor_le b q" by blast
    with assms(5) q(1,3) show ?thesis by (simp add: gap_ok_def)
  qed
  with le show ?thesis by (simp add: gap_ok_def)
qed

lemma skip_whitespace_valid:
  "valid src pos \<Longrightarrow>
     \<exists>p. skip_whitespace src pos = (None, p) \<and> valid src p \<and> gap_ok src pos p
        \<and> (\<exists>c. char_at src p = Inr c \<and> c \<notin> WHITESPACE)
        \<and> remaining src p \<le> remaining src pos"
proof (induction "remaining src pos" arbitrary: pos rule: less_induct)
  case less
  from less.prems obtain c where c: "char_at src pos = Inr c"
    by (auto simp: valid_iff_char_at)
  show ?case
  proof (cases "c \<in> WHITESPACE")
    case False
    then have "skip_whitespace src pos = (None, pos)"
      using skip_whitespace_unfold [OF less.prems c] by simp
    then show ?thesis using less.prems c False gap_ok_refl by auto
  next
    case True
    then have ne: "c \<noteq> ''eof''" by (auto simp: WHITESPACE_def)
    from next1_valid [OF less.prems c ne] obtain b
      where b: "next1 src pos = Inr b" "valid src b" "cursor_lt pos b"
        "remaining src b < remaining src pos"
        "\<forall>q. valid src q \<and> cursor_lt pos q \<longrightarrow> cursor_le b q"
      by blast
    from less.hyps [OF b(4) b(2)] obtain p
      where p: "skip_whitespace src b = (None, p)" "valid src p" "gap_ok src b p"
        "\<exists>c. char_at src p = Inr c \<and> c \<notin> WHITESPACE" "remaining src p \<le> remaining src b"
      by blast
    have "skip_whitespace src pos = (None, p)"
      using skip_whitespace_unfold [OF less.prems c] True b(1) p(1) by simp
    moreover have "gap_ok src pos p"
      using gap_ok_step [OF c True b(3) b(5) p(3)] .
    moreover have "remaining src p \<le> remaining src pos" using p(5) b(4) by simp
    ultimately show ?thesis using p(2,4) by blast
  qed
qed

lemma skip_whitespace_NoneD:
  assumes "skip_whitespace src a = (None, p)"
  shows "valid src a \<and> valid src p \<and> gap_ok src a p
     \<and> (\<exists>c. char_at src p = Inr c \<and> c \<notin> WHITESPACE) \<and> remaining src p \<le> remaining src a"
proof -
  have v: "valid src a"
  proof (rule ccontr)
    assume "\<not> valid src a"
    from skip_whitespace_invalid [OF this] assms show False by auto
  qed
  from skip_whitespace_valid [OF v] assms show ?thesis using v by auto
qed

lemma cursor_eta: "Cursor (row pos) (col pos) = pos"
  by (simp add: Cursor_def)

lemma next1_line:
  assumes "r < length (lines src)" and "c < length (lines src ! r)"
  shows "next1 src (Cursor r c) = Inr (Cursor r (c + 1))"
  using assms by (simp add: next1_def char_at_def cols_def Cursor_def)

lemma next_loop_line:
  "r < length (lines src) \<Longrightarrow> c + n \<le> length (lines src ! r) \<Longrightarrow>
     next_loop src (Cursor r c) n = Inr (Cursor r (c + n))"
proof (induction n arbitrary: c)
  case 0
  then show ?case by simp
next
  case (Suc n)
  then have "next1 src (Cursor r c) = Inr (Cursor r (c + 1))" by (simp add: next1_line)
  moreover have "next_loop src (Cursor r (c + 1)) n = Inr (Cursor r (c + 1 + n))"
    using Suc.IH [of "c + 1"] Suc.prems by simp
  ultimately show ?case by simp
qed

lemma next_pos_line:
  assumes "r < length (lines src)" and "c + n \<le> length (lines src ! r)"
  shows "next_pos src (Cursor r c) n = Inr (Cursor r (c + n))"
proof (cases "n = 1")
  case True
  then show ?thesis using assms by (simp add: next_pos_def next1_line)
next
  case False
  then show ?thesis using assms by (simp add: next_pos_def next_loop_line)
qed

lemma range_pos_line:
  "r < length (lines src) \<Longrightarrow> c + n \<le> length (lines src ! r) \<Longrightarrow>
     range_pos src (Cursor r c) (Some (Cursor r (c + n))) = Inr (map (Cursor r) [c..<c + n])"
proof (induction n arbitrary: c)
  case 0
  then show ?case by (subst range_pos.simps) simp
next
  case (Suc n)
  have ne: "Cursor r c \<noteq> Cursor r (c + Suc n)" by (simp add: Cursor_def)
  have ch: "char_at src (Cursor r c) = Inr [lines src ! r ! c]"
    using Suc.prems by (simp add: char_at_def cols_def Cursor_def)
  have nx: "next1 src (Cursor r c) = Inr (Cursor r (c + 1))"
    using Suc.prems by (simp add: next1_line)
  have ih: "range_pos src (Cursor r (c + 1)) (Some (Cursor r (c + Suc n)))
      = Inr (map (Cursor r) [c + 1..<c + Suc n])"
    using Suc.IH [of "c + 1"] Suc.prems by simp
  have "[c..<c + Suc n] = c # [c + 1..<c + Suc n]" by (simp add: upt_conv_Cons)
  then show ?case
    using ne ch nx ih by (subst range_pos.simps) simp
qed

lemma join_chars_line:
  "r < length (lines src) \<Longrightarrow> c + n \<le> length (lines src ! r) \<Longrightarrow>
     join_chars src (map (Cursor r) [c..<c + n]) = Inr (take n (drop c (lines src ! r)))"
proof (induction n arbitrary: c)
  case 0
  then show ?case by simp
next
  case (Suc n)
  have ch: "char_at src (Cursor r c) = Inr [lines src ! r ! c]"
    using Suc.prems by (simp add: char_at_def cols_def Cursor_def)
  have ih: "join_chars src (map (Cursor r) [c + 1..<c + 1 + n])
      = Inr (take n (drop (c + 1) (lines src ! r)))"
    using Suc.IH [of "c + 1"] Suc.prems by simp
  have u: "[c..<c + Suc n] = c # [c + 1..<c + 1 + n]" by (simp add: upt_conv_Cons)
  have d: "drop c (lines src ! r) = lines src ! r ! c # drop (c + 1) (lines src ! r)"
    using Suc.prems by (simp add: Cons_nth_drop_Suc)
  show ?case unfolding u d using ch ih by simp
qed

lemma str_at_line:
  assumes "r < length (lines src)" and "c + n \<le> length (lines src ! r)"
  shows "str_at src \<lparr>start = Cursor r c, stop = Cursor r (c + n)\<rparr>
     = Inr (take n (drop c (lines src ! r)))"
  using assms by (simp add: str_at_def range_pos_line join_chars_line)

lemma make_token_line:
  assumes "valid src pos" and "n \<le> length (line_rest src pos)"
  shows "make_token src k pos n =
     Inr (Token k \<lparr>start = pos, stop = Cursor (row pos) (col pos + n)\<rparr>
            (take n (line_rest src pos)) None)"
proof -
  from assms have r: "row pos < length (lines src)"
    and cn: "col pos + n \<le> length (lines src ! row pos)"
    by (auto simp: valid_def rows_def line_rest_def)
  have np: "next_pos src pos n = Inr (Cursor (row pos) (col pos + n))"
    using next_pos_line [OF r cn] by (simp add: cursor_eta)
  have cr: "CursorRange pos (Cursor (row pos) (col pos + n))
      = Inr \<lparr>start = pos, stop = Cursor (row pos) (col pos + n)\<rparr>"
    by (cases pos) (auto simp: CursorRange_def cursor_gt_def cursor_lt_def Cursor_def)
  have st: "str_at src \<lparr>start = pos, stop = Cursor (row pos) (col pos + n)\<rparr>
      = Inr (take n (line_rest src pos))"
    using str_at_line [OF r cn] by (simp add: cursor_eta line_rest_def)
  show ?thesis by (simp add: make_token_def np cr st)
qed

section \<open>Matches, sorting and chaining\<close>

lemma collect_matches_ok:
  assumes "matcher_ok re" and "valid src pos"
  shows "collect_matches re src pos ks = Inr (matches_of re src pos ks)"
proof (induction ks)
  case Nil
  then show ?case by (simp add: matches_of_def)
next
  case (Cons k ks)
  have r: "\<not> rows src \<le> row pos" using assms(2) by (simp add: valid_def)
  show ?case
  proof (cases "match_len re src pos k")
    case None
    then show ?thesis using Cons r by (simp add: matches_of_def match_len_def line_rest_def)
  next
    case (Some n)
    then have "n \<le> length (line_rest src pos)"
      using assms(1) by (auto simp: matcher_ok_def match_len_def)
    from make_token_line [OF assms(2) this, of k] Some Cons r
    show ?thesis by (simp add: matches_of_def match_len_def line_rest_def match_token_def)
  qed
qed

lemma matches_of_Nil_iff:
  "matches_of re src pos ks = [] \<longleftrightarrow> (\<forall>k\<in>set ks. match_len re src pos k = None)"
  by (induction ks) (auto simp: matches_of_def split: option.splits)

lemma token_len_match_token:
  "n \<le> length (line_rest src pos) \<Longrightarrow> token_len (match_token src pos k n) = n"
  by (simp add: token_len_def match_token_def)

lemma matches_of_mem:
  "k \<in> set ks \<Longrightarrow> match_len re src pos k = Some n \<Longrightarrow>
     match_token src pos k n \<in> set (matches_of re src pos ks)"
  by (induction ks) (auto simp: matches_of_def)

lemma matches_of_memD:
  "t \<in> set (matches_of re src pos ks) \<Longrightarrow>
     \<exists>k\<in>set ks. \<exists>n. match_len re src pos k = Some n \<and> t = match_token src pos k n"
proof (induction ks)
  case Nil
  then show ?case by (simp add: matches_of_def)
next
  case (Cons k ks)
  have tl: "matches_of re src pos (k # ks)
     = (case match_len re src pos k of None \<Rightarrow> [] | Some n \<Rightarrow> [match_token src pos k n])
       @ matches_of re src pos ks"
    by (simp add: matches_of_def)
  show ?case
  proof (cases "t \<in> set (matches_of re src pos ks)")
    case True
    with Cons.IH show ?thesis by auto
  next
    case False
    with Cons.prems tl obtain n where "match_len re src pos k = Some n" "t = match_token src pos k n"
      by (cases "match_len re src pos k") auto
    then show ?thesis by auto
  qed
qed

lemma match_len_le:
  "matcher_ok re \<Longrightarrow> match_len re src pos k = Some n \<Longrightarrow> n \<le> length (line_rest src pos)"
  by (auto simp: matcher_ok_def match_len_def)

lemma matches_of_filter:
  assumes "matcher_ok re"
  shows "filter (\<lambda>t. token_len t = L) (matches_of re src pos ks)
     = map (\<lambda>k. match_token src pos k L) (tied_kinds re src pos ks L)"
proof (induction ks)
  case Nil
  then show ?case by (simp add: matches_of_def tied_kinds_def)
next
  case (Cons k ks)
  have tl: "matches_of re src pos (k # ks)
     = (case match_len re src pos k of None \<Rightarrow> [] | Some n \<Rightarrow> [match_token src pos k n])
       @ matches_of re src pos ks"
    by (simp add: matches_of_def)
  have tk: "tied_kinds re src pos (k # ks) L
     = (if match_len re src pos k = Some L then [k] else []) @ tied_kinds re src pos ks L"
    by (simp add: tied_kinds_def)
  show ?case
  proof (cases "match_len re src pos k")
    case None
    then show ?thesis using Cons tl tk by simp
  next
    case (Some n)
    then have "token_len (match_token src pos k n) = n"
      using match_len_le [OF assms] token_len_match_token by blast
    then show ?thesis using Some Cons tl tk by auto
  qed
qed

lemma sorted_map_last:
  assumes "sorted (map f xs)" and "x \<in> set xs"
  shows "f x \<le> f (last xs)"
proof -
  from assms(2) have ne: "xs \<noteq> []" by auto
  then have "xs = butlast xs @ [last xs]" by simp
  then have "sorted (map f (butlast xs) @ [f (last xs)])"
    using assms(1) by (metis list.simps(8,9) map_append)
  then have "\<forall>y\<in>set (butlast xs). f y \<le> f (last xs)" by (auto simp: sorted_append)
  moreover have "x \<in> set (butlast xs) \<or> x = last xs"
    using assms(2) ne by (metis Un_iff append_butlast_last_id empty_iff empty_set set_ConsD set_append)
  ultimately show ?thesis by auto
qed

lemma sort_key_last:
  assumes "ms \<noteq> []"
  shows "last (sort_key f ms) \<in> set ms \<and> (\<forall>t\<in>set ms. f t \<le> f (last (sort_key f ms)))"
proof -
  have ne: "sort_key f ms \<noteq> []" using assms by (metis length_0_conv length_sort)
  then have "last (sort_key f ms) \<in> set (sort_key f ms)" by (rule last_in_set)
  then have a: "last (sort_key f ms) \<in> set ms" by (simp only: set_sort)
  have "f t \<le> f (last (sort_key f ms))" if "t \<in> set ms" for t
    using sorted_map_last [of f "sort_key f ms" t] that by simp
  with a show ?thesis by blast
qed

lemma alt_chain_set_alternative:
  "alt_chain (set_alternative m (Some r)) = set_alternative m (Some r) # alt_chain r"
  by (simp add: set_alternative_def)

lemma alt_chain_chain:
  assumes "\<And>t a. f (set_alternative t a) = f t"
  shows "map f (alt_chain (chain r ms)) = rev (map f ms) @ map f (alt_chain r)"
  by (induction ms arbitrary: r) (simp_all add: alt_chain_set_alternative assms)

lemma alt_chain_hd: "\<exists>ts. alt_chain t = t # ts"
  by (cases t rule: alt_chain.cases) auto

lemma alt_chain_last: "alternative (last (alt_chain t)) = None"
proof (induction t rule: alt_chain.induct)
  case (1 k r s)
  then show ?case by simp
next
  case (2 k r s t)
  from alt_chain_hd [of t] have "alt_chain t \<noteq> []" by auto
  then show ?case using 2 by simp
qed

lemma alt_chain_match_token: "alt_chain (match_token src pos k n) = [match_token src pos k n]"
  by (simp add: match_token_def)

section \<open>One step of the lexer\<close>

lemma parse_token_fail:
  assumes "matcher_ok re" and "valid src pos"
    and "\<forall>k\<in>set ks. match_len re src pos k = None"
  shows "parse_token re src pos ks
     = (Inl (Lexer_Error src pos (''could not parse token at '' @ cursor_str pos)), pos)"
  using assms(3) by (simp add: parse_token_def collect_matches_ok [OF assms(1,2)] matches_of_Nil_iff)

lemma parse_token_match:
  assumes ok: "matcher_ok re" and v: "valid src pos"
    and some: "\<not> (\<forall>k\<in>set ks. match_len re src pos k = None)"
  shows "\<exists>t p L. parse_token re src pos ks = (Inr t, p) \<and> token_len t = L
     \<and> L \<le> length (line_rest src pos)
     \<and> tied_kinds re src pos ks L \<noteq> []
     \<and> (\<forall>k\<in>set ks. \<forall>n. match_len re src pos k = Some n \<longrightarrow> n \<le> L)
     \<and> map kind (alt_chain t) = rev (tied_kinds re src pos ks L)
     \<and> (\<forall>a\<in>set (alt_chain t). rng a = \<lparr>start = pos, stop = Cursor (row pos) (col pos + L)\<rparr>
           \<and> lexeme a = take L (line_rest src pos))
     \<and> skip_whitespace src (Cursor (row pos) (col pos + L)) = (None, p)"
proof -
  define ms where "ms = matches_of re src pos ks"
  define L where "L = token_len (last (sort_key token_len ms))"
  define tk where "tk = tied_kinds re src pos ks L"
  define R where "R = \<lparr>start = pos, stop = Cursor (row pos) (col pos + L)\<rparr>"
  define g where "g = (\<lambda>t. (rng t, lexeme t))"
  have ne: "ms \<noteq> []" using some by (simp add: ms_def matches_of_Nil_iff)
  from sort_key_last [OF ne, of token_len]
  have lin: "last (sort_key token_len ms) \<in> set ms"
    and lmax: "\<forall>t\<in>set ms. token_len t \<le> L"
    by (auto simp: L_def)
  from matches_of_memD [OF lin [unfolded ms_def]] obtain k0 n0
    where k0: "k0 \<in> set ks" "match_len re src pos k0 = Some n0"
      "last (sort_key token_len ms) = match_token src pos k0 n0"
    unfolding ms_def by blast
  have n0le: "n0 \<le> length (line_rest src pos)" using match_len_le [OF ok k0(2)] .
  have Ln0: "L = n0" using k0(3) token_len_match_token [OF n0le] by (simp add: L_def)
  have Lle: "L \<le> length (line_rest src pos)" using n0le Ln0 by simp
  have tkne: "tk \<noteq> []" using k0(1,2) Ln0 by (auto simp: tk_def tied_kinds_def filter_empty_conv)
  have mx: "\<forall>k\<in>set ks. \<forall>n. match_len re src pos k = Some n \<longrightarrow> n \<le> L"
  proof (intro ballI allI impI)
    fix k n assume kn: "k \<in> set ks" "match_len re src pos k = Some n"
    then have "match_token src pos k n \<in> set ms" by (simp add: ms_def matches_of_mem)
    with lmax have "token_len (match_token src pos k n) \<le> L" by blast
    then show "n \<le> L" using token_len_match_token [OF match_len_le [OF ok kn(2)]] by simp
  qed
  have tied: "filter (\<lambda>t. token_len t = L) (sort_key token_len ms)
     = map (\<lambda>k. match_token src pos k L) tk"
    by (simp add: sort_key_stable ms_def tk_def matches_of_filter [OF ok])
  from tkne obtain k1 ks' where tk: "tk = k1 # ks'" by (cases tk) auto
  define m where "m = match_token src pos k1 L"
  define ms' where "ms' = map (\<lambda>k. match_token src pos k L) ks'"
  define result where "result = chain m ms'"
  have tied': "filter (\<lambda>t. token_len t = L) (sort_key token_len ms) = m # ms'"
    using tied tk by (simp add: m_def ms'_def)
  have kinds: "map kind (alt_chain result) = rev tk"
  proof -
    have "map kind (alt_chain result) = rev (map kind ms') @ map kind (alt_chain m)"
      unfolding result_def by (rule alt_chain_chain) (simp add: set_alternative_def)
    then show ?thesis
      by (simp add: tk ms'_def m_def alt_chain_match_token match_token_def comp_def)
  qed
  have gs: "map g (alt_chain result) = rev (map g ms') @ map g (alt_chain m)"
    unfolding result_def by (rule alt_chain_chain) (simp add: set_alternative_def g_def)
  have gall: "\<forall>a\<in>set (alt_chain result). rng a = R \<and> lexeme a = take L (line_rest src pos)"
  proof
    fix a assume "a \<in> set (alt_chain result)"
    then have "g a \<in> set (map g (alt_chain result))" by simp
    then have "g a \<in> set (map g ms') \<or> g a = g m"
      unfolding gs by (auto simp: m_def alt_chain_match_token)
    then have "g a = (R, take L (line_rest src pos))"
      by (auto simp: g_def ms'_def m_def match_token_def R_def)
    then show "rng a = R \<and> lexeme a = take L (line_rest src pos)" by (simp add: g_def)
  qed
  from alt_chain_hd [of result] have "result \<in> set (alt_chain result)" by auto
  with gall have res: "rng result = R" "lexeme result = take L (line_rest src pos)" by auto
  have tl: "token_len result = L" using res(2) Lle by (simp add: token_len_def)
  have vs: "valid src (Cursor (row pos) (col pos + L))"
    using v Lle by (auto simp: valid_def line_rest_def Cursor_def)
  from skip_whitespace_valid [OF vs] obtain p
    where p: "skip_whitespace src (Cursor (row pos) (col pos + L)) = (None, p)" by blast
  have "parse_token re src pos ks = (Inr result, p)"
    using ne tied' p res(1)
    by (simp add: parse_token_def collect_matches_ok [OF ok v] ms_def [symmetric]
        L_def [symmetric] result_def [symmetric] R_def)
  then show ?thesis
    using tl Lle tkne mx kinds gall p unfolding tk_def R_def by blast
qed

lemma literal_match_ok: "matcher_ok literal_match"
proof -
  have "length p \<le> length s" if "take (length p) s = p" for p s :: string
  proof -
    from that have "length (take (length p) s) = length p" by simp
    then show ?thesis by simp
  qed
  then show ?thesis by (auto simp: matcher_ok_def literal_match_def split: if_splits)
qed


lemma parse_token_empty_step:
  "parse_token literal_match (Source ''a'') (Cursor 0 0) [kind_empty]
     = (Inr (Token kind_empty \<lparr>start = Cursor 0 0, stop = Cursor 0 0\<rparr> [] None), Cursor 0 0)"
  by code_simp

lemma lex_loop_empty_diverges:
  "lex_loop literal_match (\<lambda>result. [kind_empty]) (Source ''a'') (Cursor 0 0) acc = None"
proof (rule ccontr)
  assume "lex_loop literal_match (\<lambda>result. [kind_empty]) (Source ''a'') (Cursor 0 0) acc \<noteq> None"
  then obtain y where y: "lex_loop literal_match (\<lambda>result. [kind_empty]) (Source ''a'') (Cursor 0 0) acc = Some y"
    by auto
  have ch: "char_at (Source ''a'') (Cursor 0 0) = Inr ''a''" by code_simp
  have "re = literal_match \<and> sel = (\<lambda>result. [kind_empty]) \<and> src = Source ''a'' \<and> pos = Cursor 0 0
      \<longrightarrow> False"
    if "lex_loop re sel src pos acc = Some y" for re sel src pos acc y
  proof (rule lex_loop.raw_induct [where P = "\<lambda>re sel src pos acc y.
      re = literal_match \<and> sel = (\<lambda>result. [kind_empty]) \<and> src = Source ''a'' \<and> pos = Cursor 0 0
      \<longrightarrow> False", OF _ that], goal_cases)
    case (1 f re sel src pos acc y)
    show ?case
    proof
      assume a: "re = literal_match \<and> sel = (\<lambda>result. [kind_empty]) \<and> src = Source ''a'' \<and> pos = Cursor 0 0"
      with 1(2) ch parse_token_empty_step obtain acc' where "f re sel src pos acc' = Some y"
        by auto
      with 1(1) a show False by blast
    qed
  qed
  with y show False by blast
qed


lemma parse_token_InrD:
  assumes ok: "matcher_ok re" and v: "valid src pos"
    and pt: "parse_token re src pos ks = (Inr t, p)"
  shows "token_len t \<le> length (line_rest src pos)
     \<and> tied_kinds re src pos ks (token_len t) \<noteq> []
     \<and> (\<forall>k\<in>set ks. \<forall>n. match_len re src pos k = Some n \<longrightarrow> n \<le> token_len t)
     \<and> map kind (alt_chain t) = rev (tied_kinds re src pos ks (token_len t))
     \<and> (\<forall>a\<in>set (alt_chain t).
           rng a = \<lparr>start = pos, stop = Cursor (row pos) (col pos + token_len t)\<rparr>
           \<and> lexeme a = take (token_len t) (line_rest src pos))
     \<and> skip_whitespace src (Cursor (row pos) (col pos + token_len t)) = (None, p)"
proof -
  have "\<not> (\<forall>k\<in>set ks. match_len re src pos k = None)"
  proof
    assume "\<forall>k\<in>set ks. match_len re src pos k = None"
    from parse_token_fail [OF ok v this] pt show False by simp
  qed
  from parse_token_match [OF ok v this] pt show ?thesis by auto
qed

lemma rng_of_token:
  assumes "\<forall>a\<in>set (alt_chain t). rng a = R \<and> lexeme a = s"
  shows "rng t = R \<and> lexeme t = s"
  using assms alt_chain_hd [of t] by auto

lemma len_range_line:
  assumes "valid src pos" and "n \<le> length (line_rest src pos)"
  shows "len_range src \<lparr>start = pos, stop = Cursor (row pos) (col pos + n)\<rparr> = Inr n"
proof -
  from assms have r: "row pos < length (lines src)"
    and cn: "col pos + n \<le> length (lines src ! row pos)"
    by (auto simp: valid_def rows_def line_rest_def)
  from range_pos_line [OF r cn] show ?thesis by (simp add: len_range_def cursor_eta)
qed

lemma index_of_mem: "x \<in> set xs \<Longrightarrow> \<exists>i. index_of xs x = Inr i"
  by (induction xs) auto

lemma Lexer_Error_valid:
  assumes "valid src pos"
  shows "\<exists>rest. Lexer_Error src pos msg = LexerError (msg @ rest)"
proof -
  have mem: "row pos \<in> set (rows_to_show src pos)"
    using assms by (auto simp: rows_to_show_def valid_def)
  then have ne: "rows_to_show src pos \<noteq> []" by auto
  from index_of_mem [OF mem] obtain i where i: "index_of (rows_to_show src pos) (row pos) = Inr i"
    by blast
  obtain ys where ys: "Lexer_Error src pos msg = LexerError (join_nl (msg # ys))" "ys \<noteq> []"
    using ne i by (simp add: Lexer_Error_def Let_def)
  from ys(2) obtain x xs where "ys = x # xs" by (cases ys) auto
  then have "join_nl (msg # ys) = msg @ (CHR 0x0A # join_nl (x # xs))" by simp
  with ys(1) show ?thesis by metis
qed

section \<open>Claims about one step\<close>

text \<open>
  C1.  Tie-break.  When \<open>parse_token\<close> returns a token at a valid cursor, the
  length of that token is the greatest length any candidate kind matched; the
  kinds tied at that length, taken in candidate order, are not empty; the
  returned token is of the last of them; following \<open>alternative\<close> from the
  returned token visits the tied kinds in reverse candidate order; and the last
  token of that walk has no alternative.
\<close>
theorem parse_token_tie_break:
  assumes "matcher_ok re" and "valid src pos"
    and "parse_token re src pos ks = (Inr t, p)"
  shows "(\<forall>k\<in>set ks. \<forall>n. match_len re src pos k = Some n \<longrightarrow> n \<le> token_len t)
     \<and> tied_kinds re src pos ks (token_len t) \<noteq> []
     \<and> kind t = last (tied_kinds re src pos ks (token_len t))
     \<and> map kind (alt_chain t) = rev (tied_kinds re src pos ks (token_len t))
     \<and> alternative (last (alt_chain t)) = None"
proof -
  from parse_token_InrD [OF assms]
  have ne: "tied_kinds re src pos ks (token_len t) \<noteq> []"
    and mx: "\<forall>k\<in>set ks. \<forall>n. match_len re src pos k = Some n \<longrightarrow> n \<le> token_len t"
    and ks: "map kind (alt_chain t) = rev (tied_kinds re src pos ks (token_len t))"
    by blast+
  from alt_chain_hd [of t] obtain ts where "alt_chain t = t # ts" by blast
  with ks have "kind t = hd (rev (tied_kinds re src pos ks (token_len t)))" by (metis list.sel(1) list.simps(9))
  then have "kind t = last (tied_kinds re src pos ks (token_len t))" using ne by (simp add: hd_rev)
  then show ?thesis using ne mx ks alt_chain_last by blast
qed

theorem parse_token_tie_break_witness:
  "matcher_ok literal_match \<and> valid (Source ''a a'') (Cursor 0 0)
   \<and> parse_token literal_match (Source ''a a'') (Cursor 0 0) [kind_a, kind_a2, kind_ab]
     = (Inr (Token kind_a2 \<lparr>start = Cursor 0 0, stop = Cursor 0 1\<rparr> ''a''
               (Some (Token kind_a \<lparr>start = Cursor 0 0, stop = Cursor 0 1\<rparr> ''a'' None))),
        Cursor 0 2)
   \<and> kind (Token kind_a2 \<lparr>start = Cursor 0 0, stop = Cursor 0 1\<rparr> ''a''
               (Some (Token kind_a \<lparr>start = Cursor 0 0, stop = Cursor 0 1\<rparr> ''a'' None)))
      = last (tied_kinds literal_match (Source ''a a'') (Cursor 0 0) [kind_a, kind_a2, kind_ab] 1)
   \<and> tied_kinds literal_match (Source ''a a'') (Cursor 0 0) [kind_a, kind_a2, kind_ab] 1
      = [kind_a, kind_a2]"
proof -
  have h1: "matcher_ok literal_match" by (rule literal_match_ok)
  have h2: "valid (Source ''a a'') (Cursor 0 0)" by code_simp
  have h3: "parse_token literal_match (Source ''a a'') (Cursor 0 0) [kind_a, kind_a2, kind_ab]
     = (Inr (Token kind_a2 \<lparr>start = Cursor 0 0, stop = Cursor 0 1\<rparr> ''a''
               (Some (Token kind_a \<lparr>start = Cursor 0 0, stop = Cursor 0 1\<rparr> ''a'' None))),
        Cursor 0 2)" by code_simp
  have h4: "tied_kinds literal_match (Source ''a a'') (Cursor 0 0) [kind_a, kind_a2, kind_ab] 1
      = [kind_a, kind_a2]"
    by code_simp
  from parse_token_tie_break [OF h1 h2 h3] h1 h2 h3 h4 show ?thesis by (simp add: token_len_def)
qed

text \<open>
  C2.  Longest match.  A token returned by \<open>parse_token\<close> at a valid cursor
  starts at that cursor and ends on the same row, as many columns further as
  the token is long; \<open>Source.len\<close> of its range is that length; and no kind of
  the candidate list matches a longer prefix of the rest of the line.
\<close>
theorem parse_token_longest_match:
  assumes "matcher_ok re" and "valid src pos"
    and "parse_token re src pos ks = (Inr t, p)"
  shows "start (rng t) = pos
     \<and> row (stop (rng t)) = row (start (rng t))
     \<and> col (stop (rng t)) = col (start (rng t)) + token_len t
     \<and> len_range src (rng t) = Inr (token_len t)
     \<and> (\<forall>k\<in>set ks. \<forall>n. match_len re src pos k = Some n \<longrightarrow> n \<le> token_len t)"
proof -
  from parse_token_InrD [OF assms]
  have le: "token_len t \<le> length (line_rest src pos)"
    and mx: "\<forall>k\<in>set ks. \<forall>n. match_len re src pos k = Some n \<longrightarrow> n \<le> token_len t"
    and al: "\<forall>a\<in>set (alt_chain t).
           rng a = \<lparr>start = pos, stop = Cursor (row pos) (col pos + token_len t)\<rparr>
           \<and> lexeme a = take (token_len t) (line_rest src pos)"
    by blast+
  from rng_of_token [OF al]
  have r: "rng t = \<lparr>start = pos, stop = Cursor (row pos) (col pos + token_len t)\<rparr>" by simp
  have "len_range src (rng t) = Inr (token_len t)"
    unfolding r using len_range_line [OF assms(2) le] .
  then show ?thesis using r mx by (simp add: Cursor_def)
qed

theorem parse_token_longest_match_witness:
  "matcher_ok literal_match \<and> valid (Source ''ab a'') (Cursor 0 0)
   \<and> parse_token literal_match (Source ''ab a'') (Cursor 0 0) [kind_a, kind_a2, kind_ab]
     = (Inr (Token kind_ab \<lparr>start = Cursor 0 0, stop = Cursor 0 2\<rparr> ''ab'' None), Cursor 0 3)
   \<and> len_range (Source ''ab a'') \<lparr>start = Cursor 0 0, stop = Cursor 0 2\<rparr> = Inr 2
   \<and> match_len literal_match (Source ''ab a'') (Cursor 0 0) kind_a = Some 1
   \<and> match_len literal_match (Source ''ab a'') (Cursor 0 0) kind_a2 = Some 1
   \<and> match_len literal_match (Source ''ab a'') (Cursor 0 0) kind_ab = Some 2"
proof -
  have h1: "matcher_ok literal_match" by (rule literal_match_ok)
  have h2: "valid (Source ''ab a'') (Cursor 0 0)" by code_simp
  have h3: "parse_token literal_match (Source ''ab a'') (Cursor 0 0) [kind_a, kind_a2, kind_ab]
     = (Inr (Token kind_ab \<lparr>start = Cursor 0 0, stop = Cursor 0 2\<rparr> ''ab'' None), Cursor 0 3)"
    by code_simp
  have tl: "token_len (Token kind_ab \<lparr>start = Cursor 0 0, stop = Cursor 0 2\<rparr> ''ab'' None) = 2"
    by (simp add: token_len_def)
  have m: "match_len literal_match (Source ''ab a'') (Cursor 0 0) kind_a = Some 1"
    "match_len literal_match (Source ''ab a'') (Cursor 0 0) kind_a2 = Some 1"
    "match_len literal_match (Source ''ab a'') (Cursor 0 0) kind_ab = Some 2"
    by code_simp+
  from parse_token_longest_match [OF h1 h2 h3] h1 h2 h3 m show ?thesis
    unfolding tl token.sel by blast
qed

text \<open>
  C5, as amended.  At a valid cursor \<open>parse_token\<close> raises exactly when no
  candidate kind matches at all, a match of the empty prefix counting as a
  match.  What it raises then is the \<open>Lexer.Error\<close> built from the cursor the
  step started at, whose text begins with \<open>could not parse token at\<close> and that
  cursor; and the cursor has not moved.
\<close>
theorem parse_token_failure:
  assumes "matcher_ok re" and "valid src pos"
  shows "((\<exists>e p. parse_token re src pos ks = (Inl e, p))
            \<longleftrightarrow> (\<forall>k\<in>set ks. match_len re src pos k = None))
     \<and> (\<forall>e p. parse_token re src pos ks = (Inl e, p) \<longrightarrow>
            p = pos
          \<and> e = Lexer_Error src pos (''could not parse token at '' @ cursor_str pos)
          \<and> (\<exists>rest. e = LexerError (''could not parse token at '' @ cursor_str pos @ rest)))"
proof (cases "\<forall>k\<in>set ks. match_len re src pos k = None")
  case True
  from Lexer_Error_valid [OF assms(2), of "''could not parse token at '' @ cursor_str pos"]
  obtain rest where "Lexer_Error src pos (''could not parse token at '' @ cursor_str pos)
      = LexerError (''could not parse token at '' @ cursor_str pos @ rest)" by auto
  with parse_token_fail [OF assms True] True show ?thesis by auto
next
  case False
  from parse_token_match [OF assms False] False show ?thesis by auto
qed

theorem parse_token_failure_witness:
  "matcher_ok literal_match \<and> valid (Source ''b'') (Cursor 0 0)
   \<and> match_len literal_match (Source ''b'') (Cursor 0 0) kind_a = None
   \<and> parse_token literal_match (Source ''b'') (Cursor 0 0) [kind_a]
      = (Inl (LexerError ''could not parse token at row 1 col 1\<newline>  1 b\<newline>    ^''), Cursor 0 0)"
proof -
  have h1: "matcher_ok literal_match" by (rule literal_match_ok)
  have h2: "valid (Source ''b'') (Cursor 0 0)" by code_simp
  have h3: "parse_token literal_match (Source ''b'') (Cursor 0 0) [kind_a]
      = (Inl (LexerError ''could not parse token at row 1 col 1\<newline>  1 b\<newline>    ^''), Cursor 0 0)"
    by code_simp
  from parse_token_failure [OF h1 h2, of "[kind_a]"] h1 h2 h3 show ?thesis by auto
qed

text \<open>
  The claim as it is written fails where the only candidate has the empty
  pattern: that kind matches no non-empty prefix of \<open>a\<close>, since its match has
  length 0, and yet the step returns a token instead of raising.
\<close>

theorem parse_token_failure_counterexample:
  "match_len literal_match (Source ''a'') (Cursor 0 0) kind_empty = Some 0
   \<and> parse_token literal_match (Source ''a'') (Cursor 0 0) [kind_empty]
      = (Inr (Token kind_empty \<lparr>start = Cursor 0 0, stop = Cursor 0 0\<rparr> [] None), Cursor 0 0)"
  by code_simp

text \<open>
  C9.  From a valid cursor \<open>skip_whitespace\<close> returns without raising and
  leaves a cursor that is not before the old one; every valid position from
  the old cursor up to, and not including, the new one holds a character of
  the whitespace set; and the character at the new cursor is not in the
  whitespace set, where the end-of-input marker \<open>eof\<close> is not in that set.
\<close>
theorem skip_whitespace_spec:
  assumes "valid src pos"
  shows "\<exists>p. skip_whitespace src pos = (None, p)
     \<and> cursor_le pos p
     \<and> (\<forall>q. valid src q \<and> cursor_le pos q \<and> cursor_lt q p
            \<longrightarrow> (\<exists>c\<in>WHITESPACE. char_at src q = Inr c))
     \<and> (\<exists>c. char_at src p = Inr c \<and> c \<notin> WHITESPACE)
     \<and> ''eof'' \<notin> WHITESPACE"
proof -
  from skip_whitespace_valid [OF assms] obtain p
    where "skip_whitespace src pos = (None, p)" "gap_ok src pos p"
      "\<exists>c. char_at src p = Inr c \<and> c \<notin> WHITESPACE" by blast
  moreover have "''eof'' \<notin> WHITESPACE" by (simp add: WHITESPACE_def)
  ultimately show ?thesis unfolding gap_ok_def by blast
qed

theorem skip_whitespace_spec_witness:
  "valid (Source ''  a'') (Cursor 0 0)
   \<and> skip_whitespace (Source ''  a'') (Cursor 0 0) = (None, Cursor 0 2)
   \<and> (\<exists>p. skip_whitespace (Source ''  a'') (Cursor 0 0) = (None, p)
        \<and> cursor_le (Cursor 0 0) p
        \<and> (\<forall>q. valid (Source ''  a'') q \<and> cursor_le (Cursor 0 0) q \<and> cursor_lt q p
               \<longrightarrow> (\<exists>c\<in>WHITESPACE. char_at (Source ''  a'') q = Inr c))
        \<and> (\<exists>c. char_at (Source ''  a'') p = Inr c \<and> c \<notin> WHITESPACE))"
proof -
  have h: "valid (Source ''  a'') (Cursor 0 0)" by code_simp
  have e: "skip_whitespace (Source ''  a'') (Cursor 0 0) = (None, Cursor 0 2)" by code_simp
  from skip_whitespace_spec [OF h] h e show ?thesis by blast
qed

section \<open>Progress, emitted tokens and the loop invariant\<close>

lemma remaining_line:
  assumes "valid src pos" and "n \<le> length (line_rest src pos)" and "0 < n"
  shows "remaining src (Cursor (row pos) (col pos + n)) < remaining src pos"
proof -
  from assms have r: "row pos < length (lines src)"
    and cn: "col pos + n \<le> length (lines src ! row pos)"
    by (auto simp: valid_def rows_def line_rest_def)
  have d: "drop (row pos) (lines src) = lines src ! row pos # drop (Suc (row pos)) (lines src)"
    using r by (simp add: Cons_nth_drop_Suc)
  show ?thesis using cn assms(3) d by (simp add: remaining_def Cursor_def)
qed

lemma gap_ok_le: "gap_ok src a b \<Longrightarrow> cursor_le a b"
  by (simp add: gap_ok_def)

lemma parse_token_progress:
  assumes ok: "matcher_ok re" and v: "valid src pos" and ne: "no_empty_match re ks"
    and pt: "parse_token re src pos ks = (Inr t, p)"
  shows "start (rng t) = pos \<and> cursor_lt (start (rng t)) (stop (rng t))
     \<and> cursor_lt pos p \<and> valid src p \<and> remaining src p < remaining src pos"
proof -
  from parse_token_InrD [OF ok v pt]
  have le: "token_len t \<le> length (line_rest src pos)"
    and tk: "tied_kinds re src pos ks (token_len t) \<noteq> []"
    and al: "\<forall>a\<in>set (alt_chain t).
           rng a = \<lparr>start = pos, stop = Cursor (row pos) (col pos + token_len t)\<rparr>
           \<and> lexeme a = take (token_len t) (line_rest src pos)"
    and sk: "skip_whitespace src (Cursor (row pos) (col pos + token_len t)) = (None, p)"
    by blast+
  from tk obtain k where "k \<in> set ks" "match_len re src pos k = Some (token_len t)"
    by (auto simp: tied_kinds_def filter_empty_conv)
  with ne have pos_len: "0 < token_len t"
    by (cases "token_len t") (auto simp: no_empty_match_def match_len_def)
  from rng_of_token [OF al]
  have r: "rng t = \<lparr>start = pos, stop = Cursor (row pos) (col pos + token_len t)\<rparr>" by simp
  have lt: "cursor_lt pos (Cursor (row pos) (col pos + token_len t))"
    using pos_len by (simp add: cursor_lt_def Cursor_def)
  from skip_whitespace_NoneD [OF sk]
  have vp: "valid src p" and g: "gap_ok src (Cursor (row pos) (col pos + token_len t)) p"
    and rm: "remaining src p \<le> remaining src (Cursor (row pos) (col pos + token_len t))"
    by blast+
  have "cursor_lt pos p"
    using lt gap_ok_le [OF g] by (auto simp: cursor_lt_def cursor_le_iff)
  moreover have "remaining src p < remaining src pos"
    using rm remaining_line [OF v le pos_len] by simp
  ultimately show ?thesis using r lt vp by simp
qed

lemma lex_loop_terminates:
  assumes ok: "matcher_ok re" and ne: "\<forall>res. no_empty_match re (sel res)"
  shows "valid src pos \<Longrightarrow> \<exists>r. lex_loop re sel src pos acc = Some r"
proof (induction "remaining src pos" arbitrary: pos acc rule: less_induct)
  case less
  from less.prems obtain c where c: "char_at src pos = Inr c"
    by (auto simp: valid_iff_char_at)
  show ?case
  proof (cases "c = ''eof''")
    case True
    then show ?thesis using c by (subst lex_loop.simps) simp
  next
    case False
    obtain r p where pt: "parse_token re src pos (sel acc) = (r, p)"
      by (cases "parse_token re src pos (sel acc)") auto
    show ?thesis
    proof (cases r)
      case (Inl e)
      then show ?thesis using c False pt by (subst lex_loop.simps) simp
    next
      case (Inr t)
      from ne have "no_empty_match re (sel acc)" by blast
      from parse_token_progress [OF ok less.prems this pt [unfolded Inr]]
      have "valid src p" "remaining src p < remaining src pos" by blast+
      from less.hyps [OF this(2) this(1)] obtain r' where "lex_loop re sel src p (acc @ [t]) = Some r'"
        by blast
      then show ?thesis using c False pt Inr by (subst lex_loop.simps) simp
    qed
  qed
qed

lemma lex_with_terminates:
  assumes "matcher_ok re" and "\<forall>res. no_empty_match re (sel res)"
  shows "\<exists>r. lex_with re sel src = Some r"
proof -
  obtain e p where sk: "skip_whitespace src (Cursor 0 0) = (e, p)"
    by (cases "skip_whitespace src (Cursor 0 0)") auto
  show ?thesis
  proof (cases e)
    case None
    with sk have "valid src p" using skip_whitespace_NoneD by blast
    from lex_loop_terminates [OF assms this] show ?thesis using sk None by (simp add: lex_with_def)
  next
    case (Some a)
    then show ?thesis using sk by (simp add: lex_with_def)
  qed
qed


lemma literal_vocabulary_no_empty: "no_empty_match literal_match [kind_a, kind_a2, kind_ab]"
  by (simp add: no_empty_match_def literal_match_def kind_a_def kind_a2_def kind_ab_def Token_define_def)

lemma make_token_InrD:
  assumes "make_token src k pos n = Inr t"
  shows "str_at src (rng t) = Inr (lexeme t) \<and> alternative t = None
     \<and> start (rng t) = pos \<and> cursor_le pos (stop (rng t))"
proof -
  from assms obtain e r s where e: "next_pos src pos n = Inr e"
    and r: "CursorRange pos e = Inr r" and s: "str_at src r = Inr s" and t: "t = Token k r s None"
    by (auto simp: make_token_def split: sum.splits)
  from r have "r = \<lparr>start = pos, stop = e\<rparr>" "\<not> cursor_gt pos e"
    by (auto simp: CursorRange_def split: if_splits)
  then show ?thesis using s t by (auto simp: cursor_gt_def cursor_le_def)
qed

lemma collect_matches_InrD:
  "collect_matches re src pos ks = Inr ms \<Longrightarrow> m \<in> set ms \<Longrightarrow>
     str_at src (rng m) = Inr (lexeme m) \<and> alternative m = None
     \<and> start (rng m) = pos \<and> cursor_le pos (stop (rng m))"
proof (induction ks arbitrary: ms)
  case Nil
  then show ?case by simp
next
  case (Cons k ks)
  show ?case
  proof (cases "re (pattern k) (drop (col pos) (lines src ! row pos))")
    case None
    with Cons.prems have "collect_matches re src pos ks = Inr ms"
      by (auto split: if_splits)
    from Cons.IH [OF this Cons.prems(2)] show ?thesis .
  next
    case (Some n)
    with Cons.prems obtain t ts where t: "make_token src k pos n = Inr t"
      and ts: "collect_matches re src pos ks = Inr ts" and ms: "ms = t # ts"
      by (auto split: if_splits sum.splits)
    show ?thesis
    proof (cases "m = t")
      case True
      then show ?thesis using make_token_InrD [OF t] by simp
    next
      case False
      with Cons.prems(2) ms have "m \<in> set ts" by simp
      from Cons.IH [OF ts this] show ?thesis .
    qed
  qed
qed

lemma alt_chain_no_alternative:
  "alternative m = None \<Longrightarrow> alt_chain m = [m]"
  by (cases m) simp

lemma parse_token_emits:
  assumes "parse_token re src pos ks = (Inr t, p)"
  shows "token_ok src t \<and> start (rng t) = pos
     \<and> skip_whitespace src (stop (rng t)) = (None, p)"
proof -
  from assms obtain ms where cm: "collect_matches re src pos ks = Inr ms"
    by (auto simp: parse_token_def split: sum.splits)
  define tied where
    "tied = filter (\<lambda>t. token_len t = token_len (last (sort_key token_len ms))) (sort_key token_len ms)"
  from assms cm obtain m ms' where tied: "tied = m # ms'" and res: "t = chain m ms'"
    and sk: "skip_whitespace src (stop (rng t)) = (None, p)"
    by (auto simp: parse_token_def Let_def tied_def split: if_splits list.splits prod.splits option.splits)
  have sub: "set (m # ms') \<subseteq> set ms"
    unfolding tied [symmetric] tied_def by auto
  define g where "g = (\<lambda>t. (rng t, lexeme t))"
  have good: "str_at src (rng x) = Inr (lexeme x) \<and> alternative x = None
     \<and> start (rng x) = pos \<and> cursor_le pos (stop (rng x))" if "x \<in> set (m # ms')" for x
    using collect_matches_InrD [OF cm] sub that by blast
  have gs: "map g (alt_chain t) = rev (map g ms') @ map g (alt_chain m)"
    unfolding res by (rule alt_chain_chain) (simp add: set_alternative_def g_def)
  have am: "alt_chain m = [m]" using good [of m] by (simp add: alt_chain_no_alternative)
  have every: "\<exists>x\<in>set (m # ms'). g a = g x" if "a \<in> set (alt_chain t)" for a
  proof -
    from that have "g a \<in> set (map g (alt_chain t))" by simp
    then show ?thesis unfolding gs am by auto
  qed
  have a1: "\<forall>a\<in>set (alt_chain t). str_at src (rng a) = Inr (lexeme a)"
  proof
    fix a assume "a \<in> set (alt_chain t)"
    from every [OF this] obtain x where "x \<in> set (m # ms')" "g a = g x" by blast
    with good [of x] show "str_at src (rng a) = Inr (lexeme a)" by (simp add: g_def)
  qed
  from alt_chain_hd [of t] have "t \<in> set (alt_chain t)" by auto
  from every [OF this] obtain x where "x \<in> set (m # ms')" "g t = g x" by blast
  with good [of x] have "start (rng t) = pos" "cursor_le pos (stop (rng t))"
    by (simp_all add: g_def)
  with a1 sk show ?thesis by (simp add: token_ok_def)
qed

lemma lex_loop_invariant:
  assumes "lex_loop re sel src pos acc = Some y"
  shows "\<forall>toks. y = Inr toks
     \<longrightarrow> (\<forall>t\<in>set acc. token_ok src t) \<and> successively (token_gap src) acc
         \<and> (acc \<noteq> [] \<longrightarrow> skip_whitespace src (stop (rng (last acc))) = (None, pos))
     \<longrightarrow> (\<forall>t\<in>set toks. token_ok src t) \<and> successively (token_gap src) toks"
proof (rule lex_loop.raw_induct [where P = "\<lambda>re sel src pos acc y. \<forall>toks. y = Inr toks
     \<longrightarrow> (\<forall>t\<in>set acc. token_ok src t) \<and> successively (token_gap src) acc
         \<and> (acc \<noteq> [] \<longrightarrow> skip_whitespace src (stop (rng (last acc))) = (None, pos))
     \<longrightarrow> (\<forall>t\<in>set toks. token_ok src t) \<and> successively (token_gap src) toks", OF _ assms], goal_cases)
  case (1 f re sel src pos acc y)
  show ?case
  proof (intro allI impI)
    fix toks
    assume y: "y = Inr toks"
      and inv: "(\<forall>t\<in>set acc. token_ok src t) \<and> successively (token_gap src) acc
         \<and> (acc \<noteq> [] \<longrightarrow> skip_whitespace src (stop (rng (last acc))) = (None, pos))"
    from 1(2) y obtain c where c: "char_at src pos = Inr c"
      by (cases "char_at src pos") auto
    show "(\<forall>t\<in>set toks. token_ok src t) \<and> successively (token_gap src) toks"
    proof (cases "c = ''eof''")
      case True
      with 1(2) c y have "toks = acc" by simp
      with inv show ?thesis by simp
    next
      case False
      obtain r p where pt: "parse_token re src pos (sel acc) = (r, p)"
        by (cases "parse_token re src pos (sel acc)") auto
      with 1(2) c False y obtain t where r: "r = Inr t"
        and rec: "f re sel src p (acc @ [t]) = Some y"
        by (cases r) auto
      from parse_token_emits [OF pt [unfolded r]]
      have ok: "token_ok src t" and st: "start (rng t) = pos"
        and sk: "skip_whitespace src (stop (rng t)) = (None, p)" by blast+
      have gap: "acc \<noteq> [] \<Longrightarrow> token_gap src (last acc) t"
      proof -
        assume "acc \<noteq> []"
        with inv have "skip_whitespace src (stop (rng (last acc))) = (None, pos)" by blast
        from skip_whitespace_NoneD [OF this] show ?thesis by (simp add: token_gap_def st)
      qed
      have inv': "(\<forall>u\<in>set (acc @ [t]). token_ok src u) \<and> successively (token_gap src) (acc @ [t])
         \<and> (acc @ [t] \<noteq> [] \<longrightarrow> skip_whitespace src (stop (rng (last (acc @ [t])))) = (None, p))"
        using inv ok sk gap by (auto simp: successively_append_iff)
      from 1(1) [OF rec] y inv' show ?thesis by blast
    qed
  qed
qed

lemma lex_with_invariant:
  assumes "lex_with re sel src = Some (Inr toks)"
  shows "(\<forall>t\<in>set toks. token_ok src t) \<and> successively (token_gap src) toks"
proof -
  from assms obtain p where "lex_loop re sel src p [] = Some (Inr toks)"
    by (auto simp: lex_with_def split: prod.splits option.splits)
  from lex_loop_invariant [OF this] show ?thesis by simp
qed

lemma split_nl_nonempty: "split_nl s \<noteq> []"
  by (induction s) (auto split: list.splits)

lemma split_nl_chars: "l \<in> set (split_nl s) \<Longrightarrow> set l \<subseteq> set s"
proof (induction s arbitrary: l)
  case Nil
  then show ?case by simp
next
  case (Cons c cs)
  show ?case
  proof (cases "c = CHR 0x0A")
    case True
    with Cons show ?thesis by auto
  next
    case False
    from split_nl_nonempty [of cs] obtain x xs where x: "split_nl cs = x # xs"
      by (cases "split_nl cs") auto
    with Cons.prems False have "l = c # x \<or> l \<in> set xs" by auto
    then show ?thesis
    proof
      assume "l = c # x"
      moreover have "set x \<subseteq> set cs" using Cons.IH [of x] x by simp
      ultimately show ?thesis by auto
    next
      assume "l \<in> set xs"
      then have "set l \<subseteq> set cs" using Cons.IH [of l] x by simp
      then show ?thesis by auto
    qed
  qed
qed

lemma Source_valid_origin: "valid (Source s) (Cursor 0 0)"
  using split_nl_nonempty [of s] by (simp add: valid_def Source_def rows_def Cursor_def)

lemma whitespace_source_eof:
  assumes ws: "set s \<subseteq> whitespace_chars"
    and v: "valid (Source s) p" and c: "char_at (Source s) p = Inr c" and n: "c \<notin> WHITESPACE"
  shows "c = ''eof''"
proof (rule ccontr)
  assume ne: "c \<noteq> ''eof''"
  from v have r: "row p < length (lines (Source s))" by (simp add: valid_def rows_def)
  from char_at_cases [OF v] c ne n
  have lt: "col p \<noteq> length (lines (Source s) ! row p)"
    and ch: "c = [lines (Source s) ! row p ! col p]"
    by (auto simp: WHITESPACE_def split: if_splits)
  from v lt have "col p < length (lines (Source s) ! row p)" by (simp add: valid_def)
  then have "lines (Source s) ! row p ! col p \<in> set (lines (Source s) ! row p)" by simp
  moreover have "lines (Source s) ! row p \<in> set (split_nl s)"
    using r by (simp add: Source_def)
  ultimately have "lines (Source s) ! row p ! col p \<in> set s"
    using split_nl_chars by blast
  with ws ch n show False by (auto simp: whitespace_chars_def WHITESPACE_def)
qed

lemma lex_with_whitespace:
  assumes "set s \<subseteq> whitespace_chars"
  shows "lex_with re sel (Source s) = Some (Inr [])"
proof -
  from skip_whitespace_valid [OF Source_valid_origin [of s]] obtain p c
    where p: "skip_whitespace (Source s) (Cursor 0 0) = (None, p)" "valid (Source s) p"
      "char_at (Source s) p = Inr c" "c \<notin> WHITESPACE"
    by blast
  from whitespace_source_eof [OF assms p(2,3,4)] have "c = ''eof''" .
  then have "lex_loop re sel (Source s) p [] = Some (Inr [])"
    using p(3) by (subst lex_loop.simps) simp
  then show ?thesis using p(1) by (simp add: lex_with_def)
qed


section \<open>Claims about the lex loop\<close>

text \<open>
  C3, as amended.  Let no kind that can become a candidate match the empty
  prefix.  Then a call of \<open>parse_token\<close> at a valid cursor either raises the
  \<open>Lexer.Error\<close> of that cursor and leaves the cursor alone, or returns a token
  that starts at the cursor and ends strictly after it, leaving a valid cursor
  strictly after the old one; and \<open>lex\<close> returns, with tokens or with an
  error, on every source.
\<close>
theorem lex_terminates:
  assumes "matcher_ok re" and "\<forall>res. no_empty_match re (sel res)" and "valid src pos"
  shows "(parse_token re src pos (sel res)
            = (Inl (Lexer_Error src pos (''could not parse token at '' @ cursor_str pos)), pos)
          \<or> (\<exists>t p. parse_token re src pos (sel res) = (Inr t, p)
                \<and> start (rng t) = pos \<and> cursor_lt (start (rng t)) (stop (rng t))
                \<and> cursor_lt pos p \<and> valid src p))
     \<and> (\<exists>r. lex_with re sel src = Some r)"
proof -
  have ne: "no_empty_match re (sel res)" using assms(2) by blast
  have step: "parse_token re src pos (sel res)
            = (Inl (Lexer_Error src pos (''could not parse token at '' @ cursor_str pos)), pos)
          \<or> (\<exists>t p. parse_token re src pos (sel res) = (Inr t, p)
                \<and> start (rng t) = pos \<and> cursor_lt (start (rng t)) (stop (rng t))
                \<and> cursor_lt pos p \<and> valid src p)"
  proof (cases "\<forall>k\<in>set (sel res). match_len re src pos k = None")
    case True
    from parse_token_fail [OF assms(1,3) True] show ?thesis by simp
  next
    case False
    from parse_token_match [OF assms(1,3) False] obtain t p
      where pt: "parse_token re src pos (sel res) = (Inr t, p)" by blast
    from parse_token_progress [OF assms(1,3) ne pt] pt show ?thesis by blast
  qed
  with lex_with_terminates [OF assms(1,2)] show ?thesis by blast
qed

theorem lex_terminates_witness:
  "matcher_ok literal_match
   \<and> no_empty_match literal_match [kind_a, kind_a2, kind_ab]
   \<and> valid (Source ''ab a'') (Cursor 0 0)
   \<and> parse_token literal_match (Source ''ab a'') (Cursor 0 0) [kind_a, kind_a2, kind_ab]
      = (Inr (Token kind_ab \<lparr>start = Cursor 0 0, stop = Cursor 0 2\<rparr> ''ab'' None), Cursor 0 3)
   \<and> cursor_lt (Cursor 0 0) (Cursor 0 2)
   \<and> (\<exists>r. lex_with literal_match (\<lambda>result. [kind_a, kind_a2, kind_ab]) (Source ''ab a'') = Some r)"
proof -
  have h1: "matcher_ok literal_match" by (rule literal_match_ok)
  have n: "no_empty_match literal_match [kind_a, kind_a2, kind_ab]"
    by (rule literal_vocabulary_no_empty)
  then have h2: "\<forall>res. no_empty_match literal_match ((\<lambda>result. [kind_a, kind_a2, kind_ab]) res)"
    by simp
  have h3: "valid (Source ''ab a'') (Cursor 0 0)" by code_simp
  have p: "parse_token literal_match (Source ''ab a'') (Cursor 0 0) [kind_a, kind_a2, kind_ab]
      = (Inr (Token kind_ab \<lparr>start = Cursor 0 0, stop = Cursor 0 2\<rparr> ''ab'' None), Cursor 0 3)"
    by code_simp
  have c: "cursor_lt (Cursor 0 0) (Cursor 0 2)" by (simp add: cursor_lt_def Cursor_def)
  from lex_terminates [OF h1 h2 h3] h1 n h3 p c show ?thesis by blast
qed

text \<open>
  The claim as it is written fails for a kind whose pattern matches the empty
  prefix: its match is collected like any other, the token returned has an
  empty range, the cursor stays where it was, and \<open>lex\<close> never returns.
\<close>

theorem lex_terminates_counterexample:
  "parse_token literal_match (Source ''a'') (Cursor 0 0) [kind_empty]
     = (Inr (Token kind_empty \<lparr>start = Cursor 0 0, stop = Cursor 0 0\<rparr> [] None), Cursor 0 0)
   \<and> \<not> cursor_lt (Cursor 0 0) (Cursor 0 0)
   \<and> GenericLexer_lex literal_match [kind_empty] (Source ''a'') = None"
proof -
  have "skip_whitespace (Source ''a'') (Cursor 0 0) = (None, Cursor 0 0)" by code_simp
  then have "GenericLexer_lex literal_match [kind_empty] (Source ''a'') = None"
    by (simp add: GenericLexer_lex_def lex_with_def lex_loop_empty_diverges)
  moreover have "\<not> cursor_lt (Cursor 0 0) (Cursor 0 0)" by (simp add: cursor_lt_def)
  ultimately show ?thesis using parse_token_empty_step by simp
qed

text \<open>
  C4.  Whatever the source and the vocabulary, every token that \<open>lex\<close>
  returns, and every token on its alternative chain (which begins with the
  token itself), has as lexeme what \<open>Source.str_at\<close> gives for its range: the
  characters \<open>char_at\<close> reads at the positions from the start of the range up
  to its end, joined.
\<close>
theorem lex_lexemes:
  assumes "lex_with re sel src = Some (Inr toks)"
  shows "\<forall>t\<in>set toks. t \<in> set (alt_chain t)
     \<and> (\<forall>a\<in>set (alt_chain t). str_at src (rng a) = Inr (lexeme a))"
proof
  fix t assume "t \<in> set toks"
  with lex_with_invariant [OF assms] have "token_ok src t" by blast
  moreover from alt_chain_hd [of t] have "t \<in> set (alt_chain t)" by auto
  ultimately show "t \<in> set (alt_chain t)
     \<and> (\<forall>a\<in>set (alt_chain t). str_at src (rng a) = Inr (lexeme a))"
    by (simp add: token_ok_def)
qed

theorem lex_lexemes_witness:
  "lex_with literal_match (\<lambda>result. [kind_a, kind_a2, kind_ab]) (Source ''ab a'')
    = Some (Inr [Token kind_ab \<lparr>start = Cursor 0 0, stop = Cursor 0 2\<rparr> ''ab'' None,
                 Token kind_a2 \<lparr>start = Cursor 0 3, stop = Cursor 0 4\<rparr> ''a''
                   (Some (Token kind_a \<lparr>start = Cursor 0 3, stop = Cursor 0 4\<rparr> ''a'' None))])
   \<and> str_at (Source ''ab a'') \<lparr>start = Cursor 0 0, stop = Cursor 0 2\<rparr> = Inr ''ab''
   \<and> str_at (Source ''ab a'') \<lparr>start = Cursor 0 3, stop = Cursor 0 4\<rparr> = Inr ''a''"
proof -
  have h: "lex_with literal_match (\<lambda>result. [kind_a, kind_a2, kind_ab]) (Source ''ab a'')
    = Some (Inr [Token kind_ab \<lparr>start = Cursor 0 0, stop = Cursor 0 2\<rparr> ''ab'' None,
                 Token kind_a2 \<lparr>start = Cursor 0 3, stop = Cursor 0 4\<rparr> ''a''
                   (Some (Token kind_a \<lparr>start = Cursor 0 3, stop = Cursor 0 4\<rparr> ''a'' None))])"
    by code_simp
  from lex_lexemes [OF h] h show ?thesis by simp
qed


text \<open>
  C6.  In a list of tokens returned by \<open>lex\<close> no range ends before it
  starts, each token ends at or before the start of the next, and every valid
  position from the end of a token up to, and not including, the start of the
  next holds a character of the whitespace set.
\<close>
theorem lex_ranges:
  assumes "lex_with re sel src = Some (Inr toks)"
  shows "(\<forall>t\<in>set toks. cursor_le (start (rng t)) (stop (rng t)))
     \<and> (\<forall>i. Suc i < length toks \<longrightarrow>
           cursor_le (stop (rng (toks ! i))) (start (rng (toks ! Suc i)))
         \<and> (\<forall>q. valid src q \<and> cursor_le (stop (rng (toks ! i))) q
                  \<and> cursor_lt q (start (rng (toks ! Suc i)))
               \<longrightarrow> (\<exists>c\<in>WHITESPACE. char_at src q = Inr c)))"
proof -
  from lex_with_invariant [OF assms]
  have ok: "\<forall>t\<in>set toks. token_ok src t" and su: "successively (token_gap src) toks" by blast+
  from su have "\<forall>i. Suc i < length toks \<longrightarrow> token_gap src (toks ! i) (toks ! Suc i)"
    by (simp add: successively_conv_nth)
  then show ?thesis using ok unfolding token_gap_def gap_ok_def token_ok_def by blast
qed

theorem lex_ranges_witness:
  "lex_with literal_match (\<lambda>result. [kind_a, kind_ab]) (Source ''ab  a'')
    = Some (Inr [Token kind_ab \<lparr>start = Cursor 0 0, stop = Cursor 0 2\<rparr> ''ab'' None,
                 Token kind_a \<lparr>start = Cursor 0 4, stop = Cursor 0 5\<rparr> ''a'' None])
   \<and> cursor_le (Cursor 0 2) (Cursor 0 4)
   \<and> valid (Source ''ab  a'') (Cursor 0 3)
   \<and> (\<exists>c\<in>WHITESPACE. char_at (Source ''ab  a'') (Cursor 0 3) = Inr c)"
proof -
  have h: "lex_with literal_match (\<lambda>result. [kind_a, kind_ab]) (Source ''ab  a'')
    = Some (Inr [Token kind_ab \<lparr>start = Cursor 0 0, stop = Cursor 0 2\<rparr> ''ab'' None,
                 Token kind_a \<lparr>start = Cursor 0 4, stop = Cursor 0 5\<rparr> ''a'' None])"
    by code_simp
  have v: "valid (Source ''ab  a'') (Cursor 0 3)" by code_simp
  have a: "cursor_le (Cursor 0 2) (Cursor 0 3)" "cursor_lt (Cursor 0 3) (Cursor 0 4)"
    by (simp_all add: cursor_le_def cursor_lt_def Cursor_def)
  from lex_ranges [OF h] have
    "cursor_le (Cursor 0 2) (Cursor 0 4)
     \<and> (\<forall>q. valid (Source ''ab  a'') q \<and> cursor_le (Cursor 0 2) q \<and> cursor_lt q (Cursor 0 4)
               \<longrightarrow> (\<exists>c\<in>WHITESPACE. char_at (Source ''ab  a'') q = Inr c))"
    by (simp add: nth_Cons')
  with h v a show ?thesis by blast
qed


text \<open>
  C8.  \<open>Source\<close> is defined on every raw string and puts the cursor
  \<open>Cursor(0, 0)\<close> on a valid position.  Over a source made of spaces, tabs and
  newlines only, and over the empty source, \<open>lex\<close> returns the empty list of
  tokens, whatever the vocabulary; so does the loop of the Xml lexer.
\<close>
theorem lex_whitespace_only:
  assumes "set s \<subseteq> whitespace_chars"
  shows "valid (Source raw) (Cursor 0 0)
     \<and> GenericLexer_lex re ks (Source s) = Some (Inr [])
     \<and> Xml_lex re (Source s) = Some (Inr [])
     \<and> GenericLexer_lex re ks (Source []) = Some (Inr [])"
proof -
  have "set [] \<subseteq> whitespace_chars" by simp
  from lex_with_whitespace [OF this] lex_with_whitespace [OF assms] Source_valid_origin
  show ?thesis by (simp add: GenericLexer_lex_def Xml_lex_def)
qed

theorem lex_whitespace_only_witness:
  "set [CHR '' '', CHR 0x09, CHR 0x0A, CHR '' ''] \<subseteq> whitespace_chars
   \<and> lines (Source [CHR '' '', CHR 0x09, CHR 0x0A, CHR '' '']) = [[CHR '' '', CHR 0x09], '' '']
   \<and> GenericLexer_lex literal_match [kind_a] (Source [CHR '' '', CHR 0x09, CHR 0x0A, CHR '' ''])
      = Some (Inr [])
   \<and> Xml_lex literal_match (Source [CHR '' '', CHR 0x09, CHR 0x0A, CHR '' '']) = Some (Inr [])"
proof -
  have h: "set [CHR '' '', CHR 0x09, CHR 0x0A, CHR '' ''] \<subseteq> whitespace_chars"
    by (simp add: whitespace_chars_def)
  have l: "lines (Source [CHR '' '', CHR 0x09, CHR 0x0A, CHR '' '']) = [[CHR '' '', CHR 0x09], '' '']"
    by code_simp
  from lex_whitespace_only [OF h, where re = literal_match and ks = "[kind_a]"] h l show ?thesis by simp
qed


section \<open>The candidates of the Xml lexer\<close>



section \<open>The error report\<close>

text \<open>
  C7.  The report put to the test: a source of seven lines whose fourth line
  cannot be lexed.  The rows shown are the three before the failing row, the
  failing row, and two after it; the seventh line is left out although it is
  the third line after the failing row.  Each shown line has its number
  right-aligned in front, and the caret line stands under the failing row.
\<close>
theorem Lexer_Error_window:
  "rows_to_show (Source ''a\<newline>a\<newline>a\<newline>b\<newline>a\<newline>a\<newline>a'') (Cursor 3 0) = [0, 1, 2, 3, 4, 5]
   \<and> rows (Source ''a\<newline>a\<newline>a\<newline>b\<newline>a\<newline>a\<newline>a'') = 7
   \<and> GenericLexer_lex literal_match [kind_a] (Source ''a\<newline>a\<newline>a\<newline>b\<newline>a\<newline>a\<newline>a'')
      = Some (Inl (LexerError
          ''could not parse token at row 4 col 1\<newline>  1 a\<newline>  2 a\<newline>  3 a\<newline>  4 b\<newline>    ^\<newline>  5 a\<newline>  6 a''))"
  by code_simp

end
